theory Spec2Isabelle
  imports Main
begin

section \<open>Data model\<close>

text \<open>
  Modelled from the spec: the enum \<open>Lifecycle\<close> is imported from \<open>@/_lib/Lifecycle\<close>,
  whose declaration is not among the sources. Its members are the six phases the spec
  names and the array \<open>appLifecycle\<close> lists, pairwise different.
\<close>

datatype Lifecycle = BOOTING | BOOTED | READY | RUNNING | SHUTTING_DOWN | TERMINATED

datatype AppState = IDLE | STARTING | STARTED | STOPPING | STOPPED

text \<open>
  A \<open>HookFn\<close> is a callback of a collaborator. The model keeps its identity only; what
  the promise it returns does (fulfil, reject, stay pending) is the environment's choice.
\<close>

type_synonym HookFn = nat

text \<open>
  The values a promise is rejected with: the two \<open>Error\<close>s the application throws
  ("The application has already started.", "The application is not running.") and the
  failure of a collaborator's hook, identified by a number.
\<close>

datatype err = AlreadyStarted | NotRunning | HookError nat

text \<open>
  The functions that \<open>makeApp\<close> puts into a promise chain: \<open>status(newStatus)\<close>, the
  thunk \<open>() => promiseChain(hooks.get(lifecycle))\<close> that \<open>transition\<close> returns,
  \<open>started\<close>, and a collaborator's hook (tagged with the phase it was read from).
\<close>

datatype task = Status AppState | Thunk Lifecycle | StartedFn | Hook Lifecycle HookFn

text \<open>
  A promise of a chain, as a term: \<open>Promise.resolve()\<close> and a fulfilled promise are
  \<open>Fulfilled\<close>; \<open>chain.then(fn)\<close> is \<open>Then chain fn\<close> until \<open>fn\<close> is called, and
  \<open>Follow q\<close> once \<open>fn\<close> has returned the promise \<open>q\<close>, whose state it adopts;
  \<open>HookPending\<close> is the pending promise a hook returned; \<open>GatePending g\<close> is the
  pending promise that \<open>started\<close> created (its \<open>resolve\<close> function is number \<open>g\<close>).
\<close>

datatype promise =
    Fulfilled
  | Rejected err
  | HookPending Lifecycle HookFn
  | GatePending nat
  | Then promise task
  | Follow promise

text \<open>
  The promise of one invocation of an async function, by where the invocation is
  suspended: \<open>start\<close> at \<open>await promiseChain(...)\<close> or at \<open>await stop()\<close> in its
  catch block, \<open>stop\<close> at \<open>await promiseChain(...)\<close>, the routine \<open>shutdown(code)\<close> at
  \<open>await stop()\<close>; or settled.
\<close>

datatype async =
    StartAwaitChain promise
  | StartAwaitStop nat
  | StopAwaitChain promise
  | ShutdownAwaitStop int nat
  | Resolved
  | Failed err

datatype logline = Info string | Warn string | ErrorMsg string | ErrorObj err | Stdout string

datatype hookEvent = Called Lifecycle HookFn | Settled Lifecycle HookFn "nat option"

type_synonym HookStore = "Lifecycle \<Rightarrow> HookFn list option"

text \<open>
  The variables \<open>makeApp\<close> closes over (\<open>appState\<close>, \<open>current\<close> of the lifecycle
  manager, \<open>release\<close>, \<open>hooks\<close>, \<open>forceShutdown\<close>, the \<open>value\<close> cell of each of the two
  \<open>memo\<close> wrappers), the promises of the async invocations made so far (a promise is
  its index), and what the process did: logger and stdout output, the hooks called and
  settled, the armed timers, and the code \<open>process.exit\<close> was called with.
\<close>

record App =
  appState :: AppState
  current :: "Lifecycle option"
  release :: "nat option"
  hooks :: HookStore
  forceShutdown :: bool
  startMemo :: "nat option"
  stopMemo :: "nat option"
  promises :: "async list"
  gates :: nat
  logs :: "logline list"
  trace :: "hookEvent list"
  deadlines :: "int list"
  diagnostics :: nat
  exited :: "int option"

section \<open>The hook store\<close>

definition makeHookStore :: HookStore where
  "makeHookStore = (\<lambda>lifecycle. None)"

definition hooks_get :: "HookStore \<Rightarrow> Lifecycle \<Rightarrow> HookFn list" where
  "hooks_get store lifecycle = (case store lifecycle of None \<Rightarrow> [] | Some fns \<Rightarrow> fns)"

definition hooks_append :: "HookStore \<Rightarrow> Lifecycle \<Rightarrow> HookFn list \<Rightarrow> HookStore" where
  "hooks_append store lifecycle fn = store(lifecycle \<mapsto> hooks_get store lifecycle @ fn)"

definition hooks_prepend :: "HookStore \<Rightarrow> Lifecycle \<Rightarrow> HookFn list \<Rightarrow> HookStore" where
  "hooks_prepend store lifecycle fn = store(lifecycle \<mapsto> fn @ hooks_get store lifecycle)"

datatype hookArg = One HookFn | Many "HookFn list"

datatype hookOrder = Append | Prepend

text \<open>\<open>once(lifecycle, fn, order)\<close>: an array is spread, a single hook is passed as it is.\<close>

definition once :: "Lifecycle \<Rightarrow> hookArg \<Rightarrow> hookOrder \<Rightarrow> App \<Rightarrow> App" where
  "once lifecycle fn ord s =
     (let fns = (case fn of Many hs \<Rightarrow> hs | One h \<Rightarrow> [h]) in
      s\<lparr>hooks := (case ord of
                    Append \<Rightarrow> hooks_append (hooks s) lifecycle fns
                  | Prepend \<Rightarrow> hooks_prepend (hooks s) lifecycle fns)\<rparr>)"

section \<open>The lifecycle manager\<close>

definition appLifecycle :: "Lifecycle list" where
  "appLifecycle = [BOOTING, BOOTED, READY, RUNNING, SHUTTING_DOWN, TERMINATED]"

text \<open>\<open>Array.prototype.indexOf\<close>: the first index of the element, \<open>-1\<close> when absent.\<close>

fun indexOf :: "'a list \<Rightarrow> 'a \<Rightarrow> int" where
  "indexOf [] x = -1"
| "indexOf (y # ys) x =
     (if y = x then 0 else (let i = indexOf ys x in if i < 0 then -1 else i + 1))"

text \<open>\<open>current\<close> is \<open>undefined\<close> until the first transition; no array of phases holds it.\<close>

fun indexOfCurrent :: "Lifecycle list \<Rightarrow> Lifecycle option \<Rightarrow> int" where
  "indexOfCurrent xs None = -1"
| "indexOfCurrent xs (Some x) = indexOf xs x"

definition canTransition :: "Lifecycle list \<Rightarrow> Lifecycle option \<Rightarrow> Lifecycle \<Rightarrow> bool" where
  "canTransition stateMap cur lifecycle =
     (indexOfCurrent appLifecycle cur < indexOf stateMap lifecycle)"

definition makeTransition ::
  "Lifecycle list \<Rightarrow> (Lifecycle \<Rightarrow> 'r) \<Rightarrow> 'r \<Rightarrow> Lifecycle \<Rightarrow> App \<Rightarrow> 'r \<times> App" where
  "makeTransition stateMap callback orElse lifecycle s =
     (if canTransition stateMap (current s) lifecycle
      then (callback lifecycle, s\<lparr>current := Some lifecycle\<rparr>)
      else (orElse, s))"

definition transition :: "Lifecycle \<Rightarrow> App \<Rightarrow> task list \<times> App" where
  "transition = makeTransition appLifecycle (\<lambda>lifecycle. [Thunk lifecycle]) []"

section \<open>Promise chains\<close>

text \<open>\<open>hooksFns.reduce((chain, fn) => chain.then(fn), Promise.resolve())\<close>\<close>

definition promiseChain :: "task list \<Rightarrow> promise" where
  "promiseChain hooksFns = foldl (\<lambda>chain fn. Then chain fn) Fulfilled hooksFns"

text \<open>
  Calling a function of a chain: its effect on the application and the promise it returns.
\<close>

fun call :: "task \<Rightarrow> App \<Rightarrow> promise \<times> App" where
  "call (Status newStatus) s = (Fulfilled, s\<lparr>appState := newStatus\<rparr>)"
| "call (Thunk lifecycle) s =
     (promiseChain (map (Hook lifecycle) (hooks_get (hooks s) lifecycle)), s)"
| "call StartedFn s =
     (GatePending (gates s),
      s\<lparr>logs := logs s @ [Info ''Application started''],
        appState := STARTED,
        release := Some (gates s),
        gates := Suc (gates s)\<rparr>)"
| "call (Hook lifecycle h) s =
     (HookPending lifecycle h, s\<lparr>trace := trace s @ [Called lifecycle h]\<rparr>)"

text \<open>
  One promise job of a chain. A \<open>then\<close> reaction runs once the promise it was attached to
  is settled: on fulfilment the function is called and the derived promise follows what
  it returns, on rejection the function is not called and the rejection is passed on. A
  promise that follows a settled promise takes its state. Nothing runs while the
  innermost promise is pending.
\<close>

fun tick :: "promise \<Rightarrow> App \<Rightarrow> promise \<times> App" where
  "tick (Then chain fn) s =
     (case chain of
        Fulfilled \<Rightarrow> (let (q, s') = call fn s in (Follow q, s'))
      | Rejected e \<Rightarrow> (Rejected e, s)
      | _ \<Rightarrow> (let (chain', s') = tick chain s in (Then chain' fn, s')))"
| "tick (Follow q) s =
     (case q of
        Fulfilled \<Rightarrow> (Fulfilled, s)
      | Rejected e \<Rightarrow> (Rejected e, s)
      | _ \<Rightarrow> (let (q', s') = tick q s in (Follow q', s')))"
| "tick p s = (p, s)"

text \<open>The hook whose promise a chain is waiting for, if any.\<close>

fun inFlight :: "promise \<Rightarrow> (Lifecycle \<times> HookFn) option" where
  "inFlight (HookPending lifecycle h) = Some (lifecycle, h)"
| "inFlight (Then chain fn) = inFlight chain"
| "inFlight (Follow q) = inFlight q"
| "inFlight p = None"

text \<open>
  The environment settles the promise of the hook in flight: \<open>None\<close> fulfils it,
  \<open>Some n\<close> rejects it with the hook's failure \<open>n\<close>.
\<close>

fun settle :: "nat option \<Rightarrow> promise \<Rightarrow> promise" where
  "settle r (HookPending lifecycle h) =
     (case r of None \<Rightarrow> Fulfilled | Some n \<Rightarrow> Rejected (HookError n))"
| "settle r (Then chain fn) = Then (settle r chain) fn"
| "settle r (Follow q) = Follow (settle r q)"
| "settle r p = p"

text \<open>Calling the \<open>resolve\<close> function of gate \<open>g\<close>.\<close>

fun resolve :: "nat \<Rightarrow> promise \<Rightarrow> promise" where
  "resolve g (GatePending g') = (if g = g' then Fulfilled else GatePending g')"
| "resolve g (Then chain fn) = Then (resolve g chain) fn"
| "resolve g (Follow q) = Follow (resolve g q)"
| "resolve g p = p"

fun resolveIn :: "nat \<Rightarrow> async \<Rightarrow> async" where
  "resolveIn g (StartAwaitChain p) = StartAwaitChain (resolve g p)"
| "resolveIn g (StopAwaitChain p) = StopAwaitChain (resolve g p)"
| "resolveIn g a = a"

section \<open>The application\<close>

definition makeApp :: App where
  "makeApp =
     \<lparr>appState = IDLE, current = None, release = None, hooks = makeHookStore,
      forceShutdown = False, startMemo = None, stopMemo = None, promises = [],
      gates = 0, logs = [], trace = [], deadlines = [], diagnostics = 0, exited = None\<rparr>"

definition logger :: "logline \<Rightarrow> App \<Rightarrow> App" where
  "logger l s = s\<lparr>logs := logs s @ [l]\<rparr>"

definition processExit :: "int \<Rightarrow> App \<Rightarrow> App" where
  "processExit code s = s\<lparr>exited := Some code\<rparr>"

text \<open>An async function was invoked: its promise is the next index.\<close>

definition newAsync :: "async \<Rightarrow> App \<Rightarrow> nat \<times> App" where
  "newAsync a s = (length (promises s), s\<lparr>promises := promises s @ [a]\<rparr>)"

definition setAsync :: "nat \<Rightarrow> async \<Rightarrow> App \<Rightarrow> App" where
  "setAsync i a s = s\<lparr>promises := (promises s)[i := a]\<rparr>"

definition getAsync :: "App \<Rightarrow> nat \<Rightarrow> async option" where
  "getAsync s i = (if i < length (promises s) then Some (promises s ! i) else None)"

text \<open>
  \<open>memo(fn)\<close>: the cell is \<open>undefined\<close> (\<open>None\<close>) until the first call stores what \<open>fn\<close>
  returned; a promise is an object, hence truthy, so every later call returns the cell.
\<close>

definition memo ::
  "(App \<Rightarrow> nat option) \<Rightarrow> (nat option \<Rightarrow> App \<Rightarrow> App) \<Rightarrow> (App \<Rightarrow> nat \<times> App) \<Rightarrow> App \<Rightarrow> nat \<times> App" where
  "memo getCell setCell fn s =
     (case getCell s of
        None \<Rightarrow> (let (p, s') = fn s in (p, setCell (Some p) s'))
      | Some p \<Rightarrow> (p, s))"

text \<open>The body of \<open>start\<close> up to its first \<open>await\<close>.\<close>

definition startBody :: "App \<Rightarrow> nat \<times> App" where
  "startBody s =
     (if appState s \<noteq> IDLE then newAsync (Failed AlreadyStarted) s
      else
        (let s0 = logger (Info ''Starting application'') s;
             (t1, s1) = transition BOOTING s0;
             (t2, s2) = transition BOOTED s1;
             (t3, s3) = transition READY s2;
             (t4, s4) = transition RUNNING s3
         in newAsync
              (StartAwaitChain
                 (promiseChain ([Status STARTING] @ t1 @ t2 @ t3 @ t4 @ [StartedFn]))) s4))"

definition start :: "App \<Rightarrow> nat \<times> App" where
  "start = memo startMemo (\<lambda>v s. s\<lparr>startMemo := v\<rparr>) startBody"

text \<open>The body of \<open>stop\<close> up to its \<open>await\<close>.\<close>

definition stopBody :: "App \<Rightarrow> nat \<times> App" where
  "stopBody s =
     (if appState s = IDLE then newAsync (Failed NotRunning) s
      else
        (let s0 = (case release s of
                     Some g \<Rightarrow> s\<lparr>promises := map (resolveIn g) (promises s), release := None\<rparr>
                   | None \<Rightarrow> s);
             s1 = logger (Info ''Stopping application'') s0;
             (t1, s2) = transition SHUTTING_DOWN s1;
             (t2, s3) = transition TERMINATED s2
         in newAsync
              (StopAwaitChain
                 (promiseChain ([Status STOPPING] @ t1 @ t2 @ [Status STOPPED]))) s3))"

definition stop :: "App \<Rightarrow> nat \<times> App" where
  "stop = memo stopMemo (\<lambda>v s. s\<lparr>stopMemo := v\<rparr>) stopBody"

text \<open>
  The routine \<open>shutdown(code)\<close> up to its \<open>await\<close>. \<open>process.exit\<close> does not return.
\<close>

definition shutdown :: "int \<Rightarrow> App \<Rightarrow> App" where
  "shutdown code s =
     (let s0 = logger (Stdout [CHR 0x0A]) s;
          s1 = s0\<lparr>deadlines := deadlines s0 @ [code]\<rparr>
      in if appState s1 = STOPPING \<and> code = 0 then
           (if forceShutdown s1 then processExit code s1
            else (logger (Warn ''The application is yet to finishing the shutdown process. Repeat the command to force exit'') s1)
                   \<lparr>forceShutdown := True\<rparr>)
         else if appState s1 \<noteq> STOPPED then
           (let (q, s2) = stop s1 in snd (newAsync (ShutdownAwaitStop code q) s2))
         else processExit code s1)"

text \<open>
  Resuming the async invocation whose promise is \<open>i\<close>: one job of its chain, or the code
  after the \<open>await\<close> once the awaited promise is settled.
\<close>

definition resume :: "nat \<Rightarrow> App \<Rightarrow> App" where
  "resume i s =
     (case getAsync s i of
        Some (StartAwaitChain p) \<Rightarrow>
          (case p of
             Fulfilled \<Rightarrow> setAsync i Resolved s
           | Rejected e \<Rightarrow>
               (let s1 = logger (ErrorObj e) s; (q, s2) = stop s1
                in setAsync i (StartAwaitStop q) s2)
           | _ \<Rightarrow> (let (p', s') = tick p s in setAsync i (StartAwaitChain p') s'))
      | Some (StartAwaitStop q) \<Rightarrow>
          (case getAsync s q of
             Some Resolved \<Rightarrow> setAsync i Resolved s
           | Some (Failed e) \<Rightarrow> setAsync i (Failed e) s
           | _ \<Rightarrow> s)
      | Some (StopAwaitChain p) \<Rightarrow>
          (case p of
             Fulfilled \<Rightarrow> setAsync i Resolved (s\<lparr>diagnostics := Suc (diagnostics s)\<rparr>)
           | Rejected e \<Rightarrow> setAsync i (Failed e) s
           | _ \<Rightarrow> (let (p', s') = tick p s in setAsync i (StopAwaitChain p') s'))
      | Some (ShutdownAwaitStop code q) \<Rightarrow>
          (case getAsync s q of
             Some Resolved \<Rightarrow> processExit code s
           | Some (Failed e) \<Rightarrow> processExit code (logger (ErrorObj e) s)
           | _ \<Rightarrow> s)
      | _ \<Rightarrow> s)"

text \<open>
  The environment settles the hook in flight of a chain; the trace records it. Nothing
  happens when the chain waits for no hook.
\<close>

definition settleIn :: "nat option \<Rightarrow> promise \<Rightarrow> App \<Rightarrow> promise \<times> App" where
  "settleIn r p s =
     (case inFlight p of
        Some (l, h) \<Rightarrow> (settle r p, s\<lparr>trace := trace s @ [Settled l h r]\<rparr>)
      | None \<Rightarrow> (p, s))"

text \<open>The same for the chain that invocation \<open>i\<close> awaits.\<close>

definition settleHook :: "nat \<Rightarrow> nat option \<Rightarrow> App \<Rightarrow> App" where
  "settleHook i r s =
     (case getAsync s i of
        Some (StartAwaitChain p) \<Rightarrow>
          (let (p', s') = settleIn r p s in setAsync i (StartAwaitChain p') s')
      | Some (StopAwaitChain p) \<Rightarrow>
          (let (p', s') = settleIn r p s in setAsync i (StopAwaitChain p') s')
      | _ \<Rightarrow> s)"

text \<open>
  The hard-deadline timers of \<open>shutdown\<close> share one delay, so the oldest fires first; the
  diagnostic timer of \<open>stop\<close> only logs.
\<close>

definition deadlineFires :: "App \<Rightarrow> App" where
  "deadlineFires s =
     (case deadlines s of
        [] \<Rightarrow> s
      | code # rest \<Rightarrow>
          processExit code (logger (ErrorMsg ''Ok, my patience is over! #ragequit'') (s\<lparr>deadlines := rest\<rparr>)))"

definition diagnosticFires :: "App \<Rightarrow> App" where
  "diagnosticFires s =
     (if diagnostics s = 0 then s
      else logger (Warn ''The stop process has finished but something is keeping the application from exiting. Check your cleanup process!'')
             (s\<lparr>diagnostics := diagnostics s - 1\<rparr>))"

text \<open>
  What can happen to the application, one event at a time: calls of the public interface,
  a signal or fatal event reaching \<open>shutdown(code)\<close> (0 for SIGTERM and SIGINT, also when
  raised by \<open>terminate\<close>; 1 for an uncaught exception or unhandled rejection), a promise
  job, a hook's promise being settled, a timer firing. Nothing happens after
  \<open>process.exit\<close>.
\<close>

datatype event =
    CallStart
  | CallStop
  | CallOnce Lifecycle hookArg hookOrder
  | Signal int
  | Resume nat
  | SettleHook nat "nat option"
  | DeadlineFires
  | DiagnosticFires

fun fire :: "event \<Rightarrow> App \<Rightarrow> App" where
  "fire CallStart s = snd (start s)"
| "fire CallStop s = snd (stop s)"
| "fire (CallOnce lifecycle fn ord) s = once lifecycle fn ord s"
| "fire (Signal code) s = shutdown code s"
| "fire (Resume i) s = resume i s"
| "fire (SettleHook i r) s = settleHook i r s"
| "fire DeadlineFires s = deadlineFires s"
| "fire DiagnosticFires s = diagnosticFires s"

definition step :: "event \<Rightarrow> App \<Rightarrow> App" where
  "step e s = (if exited s = None then fire e s else s)"

fun run :: "event list \<Rightarrow> App \<Rightarrow> App" where
  "run [] s = s"
| "run (e # es) s = run es (step e s)"

section \<open>Notions the properties are stated with\<close>

subsection \<open>Registration order\<close>

fun fnList :: "hookArg \<Rightarrow> HookFn list" where
  "fnList (One h) = [h]"
| "fnList (Many hs) = hs"

text \<open>
  The hook lists of the calls of \<open>once\<close> made for phase \<open>l\<close> with order \<open>ord\<close>, in call
  order, each list in argument order.
\<close>

definition callsOf ::
  "hookOrder \<Rightarrow> Lifecycle \<Rightarrow> (Lifecycle \<times> hookArg \<times> hookOrder) list \<Rightarrow> HookFn list list" where
  "callsOf ord l calls =
     map (\<lambda>(l', fn, ord'). fnList fn) (filter (\<lambda>(l', fn, ord'). l' = l \<and> ord' = ord) calls)"

definition registerAll :: "(Lifecycle \<times> hookArg \<times> hookOrder) list \<Rightarrow> App \<Rightarrow> App" where
  "registerAll calls s = foldl (\<lambda>s' (l, fn, ord). once l fn ord s') s calls"

subsection \<open>The order of the phases\<close>

text \<open>The fixed index of a phase in the six-phase sequence, as the spec words it.\<close>

fun phaseIndex :: "Lifecycle \<Rightarrow> int" where
  "phaseIndex BOOTING = 0"
| "phaseIndex BOOTED = 1"
| "phaseIndex READY = 2"
| "phaseIndex RUNNING = 3"
| "phaseIndex SHUTTING_DOWN = 4"
| "phaseIndex TERMINATED = 5"

text \<open>An unset pointer counts as before all phases.\<close>

fun pointerIndex :: "Lifecycle option \<Rightarrow> int" where
  "pointerIndex None = -1"
| "pointerIndex (Some l) = phaseIndex l"

subsection \<open>Chains\<close>

text \<open>The innermost promise of a chain: the one its next job depends on.\<close>

fun core :: "promise \<Rightarrow> promise" where
  "core (Then chain fn) = core chain"
| "core (Follow q) = core q"
| "core p = p"

text \<open>The functions of a chain that were not called yet, in the order of their \<open>then\<close>.\<close>

fun todo :: "promise \<Rightarrow> task list" where
  "todo (Then chain fn) = todo chain @ [fn]"
| "todo (Follow q) = todo q"
| "todo p = []"

fun depth :: "promise \<Rightarrow> nat" where
  "depth (Then chain fn) = Suc (depth chain)"
| "depth (Follow q) = Suc (depth q)"
| "depth p = 0"

text \<open>A chain on its own: promise jobs and the environment settling the hook in flight.\<close>

datatype chainEvent = Job | Settles "nat option"

fun chainStep :: "chainEvent \<Rightarrow> promise \<times> App \<Rightarrow> promise \<times> App" where
  "chainStep Job (p, s) = tick p s"
| "chainStep (Settles r) (p, s) = settleIn r p s"

fun runChain :: "chainEvent list \<Rightarrow> promise \<times> App \<Rightarrow> promise \<times> App" where
  "runChain [] c = c"
| "runChain (e # es) c = runChain es (chainStep e c)"

subsection \<open>A chain inside the chains derived from it\<close>

text \<open>
  A promise sits inside the promises derived from it: a \<open>then\<close> with its function, or the
  promise that follows it. \<open>plug fs c\<close> is \<open>c\<close> with the derived promises \<open>fs\<close> around it,
  innermost first.
\<close>

datatype frame = ThenF task | FollowF

fun plug :: "frame list \<Rightarrow> promise \<Rightarrow> promise" where
  "plug [] c = c"
| "plug (ThenF t # fs) c = plug fs (Then c t)"
| "plug (FollowF # fs) c = plug fs (Follow c)"

fun settled :: "promise \<Rightarrow> bool" where
  "settled Fulfilled = True"
| "settled (Rejected e) = True"
| "settled p = False"

text \<open>
  The events of a chain of hooks when every hook is fulfilled as soon as it is in flight:
  for each hook the job that calls it, its fulfilment, and the job that takes the
  fulfilment over.
\<close>

definition hookJobs :: "HookFn list \<Rightarrow> chainEvent list" where
  "hookJobs hs = concat (map (\<lambda>h. [Job, Settles None, Job]) hs)"

subsection \<open>The record of a chain of hooks\<close>

text \<open>
  \<open>oneAtATime l hs evs\<close>: the record \<open>evs\<close> is what a run of the hooks \<open>hs\<close> of phase \<open>l\<close>, one
  at a time and in list order, can have produced so far: the first hook called, then
  settled, and only after it was fulfilled the second hook called, and so on; after a
  hook's failure nothing more.
\<close>

fun oneAtATime :: "Lifecycle \<Rightarrow> HookFn list \<Rightarrow> hookEvent list \<Rightarrow> bool" where
  "oneAtATime l hs [] = True"
| "oneAtATime l [] (ev # evs) = False"
| "oneAtATime l (h # hs) [ev] = (ev = Called l h)"
| "oneAtATime l (h # hs) (ev # ev' # evs) =
     (ev = Called l h \<and>
      (case ev' of
         Settled l' h' r \<Rightarrow>
           l' = l \<and> h' = h \<and> (case r of None \<Rightarrow> oneAtATime l hs evs | Some n \<Rightarrow> evs = [])
       | Called l' h' \<Rightarrow> False))"

text \<open>The record of a run in which every hook of the list was called and fulfilled.\<close>

definition allFulfilled :: "Lifecycle \<Rightarrow> HookFn list \<Rightarrow> hookEvent list" where
  "allFulfilled l hs = concat (map (\<lambda>h. [Called l h, Settled l h None]) hs)"

text \<open>The failure a record ends with, if it ends with one.\<close>

fun failure :: "hookEvent list \<Rightarrow> nat option" where
  "failure [] = None"
| "failure [Settled l h r] = r"
| "failure [Called l h] = None"
| "failure (ev # evs) = failure evs"

text \<open>
  How far a chain of the hooks \<open>hs\<close> has come when its record is \<open>tr\<close>: the first \<open>k\<close> hooks
  were fulfilled and the chain is between two hooks, or hook \<open>k\<close> is in flight, or hook
  \<open>k\<close> has failed.
\<close>

definition hooksRun :: "Lifecycle \<Rightarrow> HookFn list \<Rightarrow> hookEvent list \<Rightarrow> promise \<Rightarrow> bool" where
  "hooksRun l hs tr p =
     (\<exists>k. k \<le> length hs \<and>
        ((tr = allFulfilled l (take k hs) \<and> core p = Fulfilled \<and>
            todo p = map (Hook l) (drop k hs))
         \<or> (k < length hs \<and> tr = allFulfilled l (take k hs) @ [Called l (hs ! k)] \<and>
              core p = HookPending l (hs ! k) \<and> todo p = map (Hook l) (drop (Suc k) hs))
         \<or> (k < length hs \<and>
              (\<exists>n. tr = allFulfilled l (take k hs) @ [Called l (hs ! k), Settled l (hs ! k) (Some n)] \<and>
                   core p = Rejected (HookError n)))))"

subsection \<open>Well-formed states\<close>

text \<open>
  The place of a function in the run of the application: the functions of the chain of
  \<open>start\<close> in the order of its array, each phase's hooks right after the phase's thunk,
  then the same for the chain of \<open>stop\<close>. \<open>status\<close> is never called with \<open>IDLE\<close> or
  \<open>STARTED\<close>.
\<close>

fun place :: "task \<Rightarrow> nat" where
  "place (Status STARTING) = 0"
| "place (Thunk BOOTING) = 1"
| "place (Hook BOOTING h) = 2"
| "place (Thunk BOOTED) = 3"
| "place (Hook BOOTED h) = 4"
| "place (Thunk READY) = 5"
| "place (Hook READY h) = 6"
| "place (Thunk RUNNING) = 7"
| "place (Hook RUNNING h) = 8"
| "place StartedFn = 9"
| "place (Status STOPPING) = 10"
| "place (Thunk SHUTTING_DOWN) = 11"
| "place (Hook SHUTTING_DOWN h) = 12"
| "place (Thunk TERMINATED) = 13"
| "place (Hook TERMINATED h) = 14"
| "place (Status STOPPED) = 15"
| "place (Status IDLE) = 16"
| "place (Status STARTED) = 16"

fun isHook :: "task \<Rightarrow> bool" where
  "isHook (Hook l h) = True"
| "isHook t = False"

text \<open>\<open>a\<close> comes before \<open>b\<close>: an earlier place, or two hooks of one phase.\<close>

definition before :: "task \<Rightarrow> task \<Rightarrow> bool" where
  "before a b = (place a < place b \<or> (place a = place b \<and> isHook a \<and> isHook b))"

text \<open>What a chain still has to complete: the hook in flight, then the functions to call.\<close>

definition ahead :: "promise \<Rightarrow> task list" where
  "ahead p = (case core p of HookPending l h \<Rightarrow> [Hook l h] | _ \<Rightarrow> []) @ todo p"

fun hookFailure :: "err \<Rightarrow> bool" where
  "hookFailure (HookError n) = True"
| "hookFailure e = False"

fun failedWith :: "promise \<Rightarrow> err option" where
  "failedWith (Rejected e) = Some e"
| "failedWith p = None"

fun calledTask :: "hookEvent \<Rightarrow> task option" where
  "calledTask (Called l h) = Some (Hook l h)"
| "calledTask (Settled l h r) = None"

text \<open>
  The chain that \<open>start\<close> awaits: what is ahead is in order and belongs to start-up, the
  state is \<open>IDLE\<close> as long as \<open>status(STARTING)\<close> was not called, every start-up hook
  called so far comes before everything ahead, and a rejection is a hook's failure.
\<close>

definition startChain :: "AppState \<Rightarrow> hookEvent list \<Rightarrow> promise \<Rightarrow> bool" where
  "startChain a tr p =
     (sorted_wrt before (ahead p) \<and>
      (\<forall>t \<in> set (ahead p). place t \<le> 9) \<and>
      (Status STARTING \<in> set (ahead p) \<longrightarrow> a = IDLE) \<and>
      (\<forall>ev \<in> set tr. \<forall>c. calledTask ev = Some c \<longrightarrow> place c \<le> 9 \<longrightarrow>
         (\<forall>t \<in> set (ahead p). before c t)) \<and>
      (\<forall>e. failedWith (core p) = Some e \<longrightarrow> hookFailure e))"

text \<open>
  The chain that \<open>stop\<close> awaits: what is ahead is in order and belongs to teardown,
  nothing is left to call once the state is \<open>STOPPED\<close>, and a rejection is a hook's
  failure.
\<close>

definition stopChain :: "AppState \<Rightarrow> promise \<Rightarrow> bool" where
  "stopChain a p =
     (sorted_wrt before (ahead p) \<and>
      (\<forall>t \<in> set (ahead p). 10 \<le> place t \<and> place t \<le> 15) \<and>
      (a = STOPPED \<longrightarrow> ahead p = []) \<and>
      (\<forall>e. failedWith (core p) = Some e \<longrightarrow> hookFailure e))"

text \<open>
  What holds in every state the application reaches: nothing has happened before the
  first call of \<open>start\<close> and no teardown state before the first call of \<open>stop\<close>; the
  \<open>memo\<close> cells hold promises that exist; the only invocation
  of \<open>start\<close> (of \<open>stop\<close>) that awaits a chain is the memoized one, and its chain is as
  described above; \<open>stop\<close> went past its guard only when the state was not \<open>IDLE\<close>; and no
  promise was rejected by the guard of \<open>start\<close>.
\<close>

definition consistent :: "App \<Rightarrow> bool" where
  "consistent s =
     ((startMemo s = None \<longrightarrow> appState s = IDLE \<and> trace s = [] \<and> current s = None) \<and>
      (\<forall>i. startMemo s = Some i \<longrightarrow> getAsync s i \<noteq> None) \<and>
      (stopMemo s = None \<longrightarrow> appState s \<noteq> STOPPING \<and> appState s \<noteq> STOPPED) \<and>
      (\<forall>i. stopMemo s = Some i \<longrightarrow>
         getAsync s i \<noteq> None \<and>
         (getAsync s i = Some (Failed NotRunning) \<or> appState s \<noteq> IDLE)) \<and>
      (\<forall>i p. getAsync s i = Some (StartAwaitChain p) \<longrightarrow>
         startMemo s = Some i \<and> startChain (appState s) (trace s) p) \<and>
      (\<forall>i p. getAsync s i = Some (StopAwaitChain p) \<longrightarrow>
         stopMemo s = Some i \<and> stopChain (appState s) p \<and> appState s \<noteq> IDLE) \<and>
      (\<forall>i. getAsync s i \<noteq> Some (Failed AlreadyStarted)))"

subsection \<open>What later states keep\<close>

text \<open>
  \<open>keeps s s'\<close>: the \<open>memo\<close> cells that are set in \<open>s\<close> hold the same promise in \<open>s'\<close>, the
  promises settled in \<open>s\<close> are settled the same way in \<open>s'\<close>, and a force-exit request
  made in \<open>s\<close> still stands in \<open>s'\<close>.
\<close>

definition keeps :: "App \<Rightarrow> App \<Rightarrow> bool" where
  "keeps s s' =
     ((\<forall>p. startMemo s = Some p \<longrightarrow> startMemo s' = Some p) \<and>
      (\<forall>q. stopMemo s = Some q \<longrightarrow> stopMemo s' = Some q) \<and>
      (\<forall>i. getAsync s i = Some Resolved \<longrightarrow> getAsync s' i = Some Resolved) \<and>
      (\<forall>i e. getAsync s i = Some (Failed e) \<longrightarrow> getAsync s' i = Some (Failed e)) \<and>
      (forceShutdown s \<longrightarrow> forceShutdown s'))"

text \<open>
  No teardown has happened: \<open>stop\<close> awaits no chain, no hook of a teardown phase was
  called, and the phase pointer is not at a teardown phase.
\<close>

fun teardownPhase :: "Lifecycle \<Rightarrow> bool" where
  "teardownPhase SHUTTING_DOWN = True"
| "teardownPhase TERMINATED = True"
| "teardownPhase l = False"

fun teardownCall :: "hookEvent \<Rightarrow> bool" where
  "teardownCall (Called l h) = teardownPhase l"
| "teardownCall (Settled l h r) = False"

definition noTeardown :: "App \<Rightarrow> bool" where
  "noTeardown s =
     ((\<forall>i p. getAsync s i \<noteq> Some (StopAwaitChain p)) \<and>
      (\<forall>ev \<in> set (trace s). \<not> teardownCall ev) \<and>
      (\<forall>l. current s = Some l \<longrightarrow> \<not> teardownPhase l))"

subsection \<open>The run state along an execution\<close>

text \<open>The position of a run state on the ladder idle, starting, started, stopping, stopped.\<close>

fun stateRank :: "AppState \<Rightarrow> nat" where
  "stateRank IDLE = 0"
| "stateRank STARTING = 1"
| "stateRank STARTED = 2"
| "stateRank STOPPING = 3"
| "stateRank STOPPED = 4"

text \<open>The run states an execution passes through, from the state it starts in.\<close>

fun statesAlong :: "event list \<Rightarrow> App \<Rightarrow> AppState list" where
  "statesAlong [] s = [appState s]"
| "statesAlong (e # es) s = appState s # statesAlong es (step e s)"

text \<open>The run state never moves to an earlier position.\<close>

definition forwardOnly :: "AppState list \<Rightarrow> bool" where
  "forwardOnly xs = sorted (map stateRank xs)"

text \<open>
  The events that call \<open>stop\<close> from outside: the public \<open>stop()\<close> and a shutdown signal. In a
  calm execution none of them arrives while the run state is \<open>STARTING\<close>.
\<close>

fun stopRequest :: "event \<Rightarrow> bool" where
  "stopRequest CallStop = True"
| "stopRequest (Signal code) = True"
| "stopRequest e = False"

fun calm :: "event list \<Rightarrow> App \<Rightarrow> bool" where
  "calm [] s = True"
| "calm (e # es) s = ((stopRequest e \<longrightarrow> appState s \<noteq> STARTING) \<and> calm es (step e s))"

text \<open>
  \<open>startPending\<close>: the chain of \<open>start\<close> has still to call \<open>started\<close>. \<open>stopRunning\<close>: \<open>stop\<close>
  awaits its chain. \<open>orderly\<close>: while \<open>started\<close> is still to be called, the state is \<open>IDLE\<close> or
  \<open>STARTING\<close> and no chain of \<open>stop\<close> exists.
\<close>

definition startPending :: "App \<Rightarrow> bool" where
  "startPending s = (\<exists>i p. getAsync s i = Some (StartAwaitChain p) \<and> StartedFn \<in> set (ahead p))"

definition stopRunning :: "App \<Rightarrow> bool" where
  "stopRunning s = (\<exists>j q. getAsync s j = Some (StopAwaitChain q))"

definition orderly :: "App \<Rightarrow> bool" where
  "orderly s =
     (startPending s \<longrightarrow> (appState s = IDLE \<or> appState s = STARTING) \<and> \<not> stopRunning s)"

subsection \<open>Start-up when every hook is fulfilled\<close>

text \<open>
  The events that take the invocation \<open>i\<close> of \<open>start\<close> through one phase when every hook is
  fulfilled as soon as it is in flight: the job that reads the hooks of the phase, for
  each hook the job that calls it, its fulfilment and the job that takes the fulfilment
  over, and the job that ends the phase.
\<close>

definition hookEvents :: "nat \<Rightarrow> HookFn list \<Rightarrow> event list" where
  "hookEvents i hs = concat (map (\<lambda>h. [Resume i, SettleHook i None, Resume i]) hs)"

definition phaseEvents :: "nat \<Rightarrow> HookStore \<Rightarrow> Lifecycle \<Rightarrow> event list" where
  "phaseEvents i H l = [Resume i] @ hookEvents i (hooks_get H l) @ [Resume i]"

text \<open>
  The same for the whole chain of \<open>start\<close>: the two jobs of \<open>status(STARTING)\<close>, the four
  start-up phases, and the job that calls \<open>started\<close>.
\<close>

definition startEvents :: "nat \<Rightarrow> HookStore \<Rightarrow> event list" where
  "startEvents i H =
     [Resume i, Resume i] @ phaseEvents i H BOOTING @ phaseEvents i H BOOTED @
     phaseEvents i H READY @ phaseEvents i H RUNNING @ [Resume i]"

text \<open>
  The record in which every start-up hook of the registry was called exactly once and
  fulfilled, phase by phase and in the order of the registry.
\<close>

definition startupRecord :: "HookStore \<Rightarrow> hookEvent list" where
  "startupRecord H =
     allFulfilled BOOTING (hooks_get H BOOTING) @ allFulfilled BOOTED (hooks_get H BOOTED) @
     allFulfilled READY (hooks_get H READY) @ allFulfilled RUNNING (hooks_get H RUNNING)"

subsection \<open>Sample executions\<close>

text \<open>
  With no hooks registered: \<open>start()\<close> and the eleven promise jobs that take its chain to
  the release gate (state \<open>STARTED\<close>).
\<close>

definition startedRun :: "event list" where
  "startedRun = CallStart # replicate 11 (Resume 0)"

text \<open>Then \<open>stop()\<close> and the first job of its chain (state \<open>STOPPING\<close>).\<close>

definition stoppingRun :: "event list" where
  "stoppingRun = startedRun @ [CallStop, Resume 1]"

text \<open>
  Or \<open>stop()\<close>, all nine jobs of its invocation (state \<open>STOPPED\<close>, its promise resolved), and the
  two jobs that let the released \<open>start\<close> return.
\<close>

definition stoppedRun :: "event list" where
  "stoppedRun = startedRun @ [CallStop] @ replicate 9 (Resume 1) @ replicate 2 (Resume 0)"

text \<open>A hook registered for \<open>BOOTING\<close>, then \<open>start()\<close>, and no promise job yet.\<close>

definition startOnlyRun :: "event list" where
  "startOnlyRun = [CallOnce BOOTING (One 1) Append, CallStart]"

text \<open>
  After that: the chain of \<open>start\<close> runs until the hook is in flight, the hook fails, the
  rejection travels down the chain into the catch block of \<open>start\<close>, a graceful signal
  arrives and its \<open>shutdown\<close> routine is resumed.
\<close>

definition failedBootRun :: "event list" where
  "failedBootRun =
     replicate 4 (Resume 0) @ [SettleHook 0 (Some 7)] @ replicate 8 (Resume 0) @
     [Signal 0, Resume 2]"

text \<open>
  A hook registered for \<open>BOOTING\<close> and \<open>start()\<close>; while the hook is in flight \<open>stop()\<close> is
  called and runs to its end (state \<open>STOPPED\<close>); then the hook is fulfilled and the chain
  of \<open>start\<close> goes on to its last function.
\<close>

definition stopDuringStartRun :: "event list" where
  "stopDuringStartRun =
     startOnlyRun @ replicate 4 (Resume 0) @ [CallStop] @ replicate 9 (Resume 1) @
     [SettleHook 0 None] @ replicate 9 (Resume 0)"

text \<open>
  Hooks registered for \<open>BOOTED\<close>, \<open>READY\<close> and \<open>SHUTTING_DOWN\<close>, \<open>start()\<close>, and the jobs of its
  chain until the \<open>BOOTED\<close> hook is in flight; then that hook fails.
\<close>

definition bootedHookFailsRun :: "event list" where
  "bootedHookFailsRun =
     [CallOnce BOOTED (One 1) Append, CallOnce READY (One 3) Append,
      CallOnce SHUTTING_DOWN (One 2) Append, CallStart] @
     replicate 6 (Resume 0) @ [SettleHook 0 (Some 7)]"

text \<open>
  After that: the rejection reaches the catch block of \<open>start\<close>, which logs it and calls
  \<open>stop\<close>; the chain of \<open>stop\<close> runs until the \<open>SHUTTING_DOWN\<close> hook is in flight; that hook
  fails too; the rejection reaches the end of the chain of \<open>stop\<close>, and \<open>start\<close> is resumed.
\<close>

definition failedTeardownRun :: "event list" where
  "failedTeardownRun =
     replicate 6 (Resume 0) @ replicate 4 (Resume 1) @ [SettleHook 1 (Some 8)] @
     replicate 5 (Resume 1) @ [Resume 0]"

text \<open>Or the teardown goes well.\<close>

definition cleanTeardownRun :: "event list" where
  "cleanTeardownRun =
     replicate 6 (Resume 0) @ replicate 4 (Resume 1) @ [SettleHook 1 None] @
     replicate 7 (Resume 1) @ [Resume 0]"

text \<open>Two hooks registered for \<open>BOOTING\<close> and one for \<open>READY\<close>; \<open>start\<close> not called yet.\<close>

definition registeredRun :: "event list" where
  "registeredRun = [CallOnce BOOTING (Many [1, 2]) Append, CallOnce READY (One 3) Prepend]"

section \<open>The hook registry keeps registration order\<close>

lemma hooks_get_append:
  "hooks_get (hooks_append store l fns) l' =
     (if l' = l then hooks_get store l @ fns else hooks_get store l')"
  by (simp add: hooks_get_def hooks_append_def)

lemma hooks_get_prepend:
  "hooks_get (hooks_prepend store l fns) l' =
     (if l' = l then fns @ hooks_get store l else hooks_get store l')"
  by (simp add: hooks_get_def hooks_prepend_def)


lemma hooks_once:
  "hooks_get (hooks (once l' fn ord s)) l =
     (if l' = l
      then (case ord of
              Append \<Rightarrow> hooks_get (hooks s) l @ fnList fn
            | Prepend \<Rightarrow> fnList fn @ hooks_get (hooks s) l)
      else hooks_get (hooks s) l)"
  by (cases fn; cases ord) (simp_all add: once_def hooks_get_append hooks_get_prepend)

lemma callsOf_Cons:
  "callsOf ord l ((l', fn, ord') # calls) =
     (if l' = l \<and> ord' = ord then fnList fn # callsOf ord l calls else callsOf ord l calls)"
  by (simp add: callsOf_def)

lemma registerAll_Cons:
  "registerAll ((l', fn, ord) # calls) s = registerAll calls (once l' fn ord s)"
  by (simp add: registerAll_def)

lemma registerAll_order:
  "hooks_get (hooks (registerAll calls s)) l =
     concat (rev (callsOf Prepend l calls)) @ hooks_get (hooks s) l @ concat (callsOf Append l calls)"
proof (induction calls arbitrary: s)
  case Nil
  show ?case by (simp add: registerAll_def callsOf_def)
next
  case (Cons c calls)
  obtain l' fn ord where c: "c = (l', fn, ord)" by (cases c) auto
  show ?case
    unfolding c registerAll_Cons Cons.IH callsOf_Cons
    by (cases ord) (simp_all add: hooks_once)
qed

text \<open>
  Claim C3. After any sequence of \<open>once\<close> calls on a fresh application (appends and
  prepends, for any phases, with a single hook or a list), the hooks of a phase are: the
  hooks of its last prepend call first, back to its first prepend call, then the hooks of
  its append calls in call order; the hooks of one call keep their argument order.
\<close>

theorem hook_registry_order:
  "hooks_get (hooks (registerAll calls makeApp)) l =
     concat (rev (callsOf Prepend l calls)) @ concat (callsOf Append l calls)"
  by (simp add: registerAll_order) (simp add: makeApp_def makeHookStore_def hooks_get_def)

section \<open>The lifecycle ladder\<close>

lemma indexOf_appLifecycle: "indexOf appLifecycle l = phaseIndex l"
  by (cases l) (simp_all add: appLifecycle_def)

lemma indexOfCurrent_appLifecycle: "indexOfCurrent appLifecycle cur = pointerIndex cur"
  by (cases cur) (simp_all add: indexOf_appLifecycle)

lemma canTransition_index:
  "canTransition appLifecycle cur l = (pointerIndex cur < phaseIndex l)"
  by (simp add: canTransition_def indexOf_appLifecycle indexOfCurrent_appLifecycle)

text \<open>
  Claim C4. The transition check is true exactly when the index of the target phase is
  greater than the index of the current phase, an unset pointer being before all phases.
  When it is false, \<open>transition\<close> returns the empty list (so no function for the phase
  enters the chain and its hooks are not run), leaves the pointer and the rest of the
  state as they are and raises nothing; when it is true, the pointer is set to the target
  and the phase's thunk is returned.
\<close>

theorem transition_forward_only:
  "canTransition appLifecycle cur target = (pointerIndex cur < phaseIndex target) \<and>
   transition target s =
     (if pointerIndex (current s) < phaseIndex target
      then ([Thunk target], s\<lparr>current := Some target\<rparr>)
      else ([], s))"
  by (simp add: canTransition_index transition_def makeTransition_def)

section \<open>Promise chains, one job at a time\<close>

lemma promiseChain_Nil: "promiseChain [] = Fulfilled"
  by (simp add: promiseChain_def)

lemma promiseChain_snoc: "promiseChain (ts @ [t]) = Then (promiseChain ts) t"
  by (simp add: promiseChain_def)

lemma todo_promiseChain: "todo (promiseChain ts) = ts"
  by (induction ts rule: rev_induct) (simp_all add: promiseChain_Nil promiseChain_snoc)

lemma core_promiseChain: "core (promiseChain ts) = Fulfilled"
  by (induction ts rule: rev_induct) (simp_all add: promiseChain_Nil promiseChain_snoc)

lemma ahead_promiseChain: "ahead (promiseChain ts) = ts"
  by (simp add: ahead_def core_promiseChain todo_promiseChain)

lemma tick_cases:
  "tick p s = (p', s') \<Longrightarrow>
     (core p = Fulfilled \<and>
        (\<exists>t ts q. todo p = t # ts \<and> call t s = (q, s') \<and> todo p' = todo q @ ts \<and> core p' = core q))
     \<or> (s' = s \<and> core p' = core p \<and>
          (todo p' = todo p \<or> (\<exists>e t. core p = Rejected e \<and> todo p = t # todo p')))"
proof (induction p arbitrary: p' s')
  case (Then chain fn)
  show ?case
  proof (cases chain)
    case Fulfilled
    with Then.prems show ?thesis by (auto split: prod.splits)
  next
    case (Rejected e)
    with Then.prems show ?thesis by auto
  next
    case (HookPending l h)
    with Then.prems show ?thesis by auto
  next
    case (GatePending g)
    with Then.prems show ?thesis by auto
  next
    case (Then c f)
    obtain c' where c': "tick chain s = (c', s')" and p': "p' = promise.Then c' fn"
      using Then.prems Then by (auto split: prod.splits)
    from Then.IH[OF c'] show ?thesis unfolding p' by auto
  next
    case (Follow q)
    obtain c' where c': "tick chain s = (c', s')" and p': "p' = promise.Then c' fn"
      using Then.prems Follow by (auto split: prod.splits)
    from Then.IH[OF c'] show ?thesis unfolding p' by auto
  qed
next
  case (Follow q)
  show ?case
  proof (cases q)
    case (Then c f)
    obtain c' where c': "tick q s = (c', s')" and p': "p' = Follow c'"
      using Follow.prems Then by (auto split: prod.splits)
    from Follow.IH[OF c'] show ?thesis unfolding p' by auto
  next
    case (Follow q2)
    obtain c' where c': "tick q s = (c', s')" and p': "p' = Follow c'"
      using Follow.prems Follow by (auto split: prod.splits)
    from Follow.IH[OF c'] show ?thesis unfolding p' by auto
  qed (use Follow.prems in auto)
qed auto

lemma place_Hook: "place (Hook l h) = Suc (place (Thunk l))"
  by (cases l) simp_all

lemma place_Thunk_le: "place (Thunk l) \<le> 9 \<Longrightarrow> place (Thunk l) \<le> 8"
  by (cases l) simp_all

lemma place_Thunk_le': "place (Thunk l) \<le> 15 \<Longrightarrow> place (Thunk l) \<le> 14"
  by (cases l) simp_all

lemma place_isHook: "place b = place (Hook l h) \<Longrightarrow> isHook b"
  by (cases b rule: place.cases; cases l) simp_all

lemma before_hooks: "before (Hook l h) (Hook l h')"
  by (simp add: before_def place_Hook)

lemma before_after_Thunk: "before (Thunk l) b \<Longrightarrow> before (Hook l h) b"
  unfolding before_def using place_isHook[of b l h] by (auto simp: place_Hook)

lemma before_Thunk_Hook: "before c (Thunk l) \<Longrightarrow> before c (Hook l h)"
  by (auto simp: before_def place_Hook)

lemma not_before_self: "\<not> isHook t \<Longrightarrow> \<not> before t t"
  by (simp add: before_def)

lemma before_STARTING: "\<not> before t (Status STARTING)"
  by (simp add: before_def)

text \<open>What one job of a chain does, in terms of what is ahead.\<close>

lemma tick_ahead:
  assumes "tick p s = (p', s')"
  shows "(\<exists>a ts. ahead p = Status a # ts \<and> ahead p' = ts \<and> failedWith (core p') = None \<and>
             s' = s\<lparr>appState := a\<rparr>)
       \<or> (\<exists>l ts. ahead p = Thunk l # ts \<and> s' = s \<and> failedWith (core p') = None \<and>
             ahead p' = map (Hook l) (hooks_get (hooks s) l) @ ts)
       \<or> (\<exists>ts. ahead p = StartedFn # ts \<and> ahead p' = ts \<and> failedWith (core p') = None \<and>
             s' = s\<lparr>logs := logs s @ [Info ''Application started''], appState := STARTED,
                    release := Some (gates s), gates := Suc (gates s)\<rparr>)
       \<or> (\<exists>l h ts. ahead p = Hook l h # ts \<and> ahead p' = Hook l h # ts \<and> failedWith (core p') = None \<and>
             s' = s\<lparr>trace := trace s @ [Called l h]\<rparr>)
       \<or> (s' = s \<and> failedWith (core p') = failedWith (core p) \<and>
            (ahead p' = ahead p \<or> (\<exists>t. ahead p = t # ahead p')))"
  using tick_cases[OF assms]
proof (elim disjE conjE exE, goal_cases)
  case (1 t ts q)
  then show ?case
    by (cases t) (auto simp: ahead_def todo_promiseChain core_promiseChain)
next
  case 2
  then show ?case by (auto simp: ahead_def)
next
  case (3 e t)
  then show ?case by (auto simp: ahead_def)
qed


lemma tick_startChain:
  assumes t: "tick p s = (p', s')" and c: "startChain (appState s) (trace s) p"
  shows "startChain (appState s') (trace s') p'"
  using tick_ahead[OF t]
proof (elim disjE conjE exE, goal_cases)
  case (1 a ts)
  with c show ?case
    by (auto simp: startChain_def before_STARTING)
next
  case (2 l ts)
  with c show ?case
    by (auto simp: startChain_def sorted_wrt_append before_STARTING sorted_wrt_map
          before_hooks before_after_Thunk before_Thunk_Hook place_Hook
          dest: place_isHook place_Thunk_le)
next
  case (3 ts)
  with c show ?case
    by (auto simp: startChain_def before_STARTING)
next
  case (4 l h ts)
  with c show ?case
    by (auto simp: startChain_def before_hooks)
next
  case 5
  with c show ?case
    by (auto simp: startChain_def)
next
  case (6 t)
  with c show ?case
    by (auto simp: startChain_def)
qed


lemma tick_stopChain:
  assumes t: "tick p s = (p', s')" and c: "stopChain (appState s) p"
  shows "stopChain (appState s') p'"
  using tick_ahead[OF t]
proof (elim disjE conjE exE, goal_cases)
  case (1 a ts)
  with c show ?case
    by (cases a; cases ts) (auto simp: stopChain_def before_def)
next
  case (2 l ts)
  with c show ?case
    by (auto simp: stopChain_def sorted_wrt_append sorted_wrt_map
          before_hooks before_after_Thunk place_Hook dest: place_Thunk_le')
next
  case (3 ts)
  with c show ?case
    by (auto simp: stopChain_def)
next
  case (4 l h ts)
  with c show ?case
    by (auto simp: stopChain_def)
next
  case 5
  with c show ?case
    by (auto simp: stopChain_def)
next
  case (6 t)
  with c show ?case
    by (auto simp: stopChain_def)
qed

text \<open>What a job of the chain of \<open>start\<close> (of \<open>stop\<close>) can change.\<close>

lemma tick_start_effect:
  assumes t: "tick p s = (p', s')" and c: "startChain (appState s) (trace s) p"
  shows "(appState s' = appState s \<or> appState s' = STARTING \<or> appState s' = STARTED) \<and>
         (trace s' = trace s \<or> (\<exists>l h. trace s' = trace s @ [Called l h] \<and> place (Hook l h) \<le> 9))"
  using tick_ahead[OF t]
proof (elim disjE conjE exE, goal_cases)
  case (1 a ts)
  with c show ?case by (cases a) (auto simp: startChain_def)
qed (use c in \<open>auto simp: startChain_def\<close>)

lemma tick_stop_effect:
  assumes t: "tick p s = (p', s')" and c: "stopChain (appState s) p"
  shows "(appState s' = appState s \<or> appState s' = STOPPING \<or> appState s' = STOPPED) \<and>
         (trace s' = trace s \<or> (\<exists>l h. trace s' = trace s @ [Called l h] \<and> 10 \<le> place (Hook l h)))"
  using tick_ahead[OF t]
proof (elim disjE conjE exE, goal_cases)
  case (1 a ts)
  with c show ?case by (cases a) (auto simp: stopChain_def)
qed (use c in \<open>auto simp: stopChain_def\<close>)

lemma tick_frame:
  assumes t: "tick p s = (p', s')"
  shows "promises s' = promises s \<and> startMemo s' = startMemo s \<and> stopMemo s' = stopMemo s \<and>
         current s' = current s \<and> hooks s' = hooks s \<and> forceShutdown s' = forceShutdown s \<and>
         deadlines s' = deadlines s \<and> diagnostics s' = diagnostics s \<and> exited s' = exited s"
  using tick_ahead[OF t] by auto


lemma inFlight_core: "(inFlight p = Some (l, h)) = (core p = HookPending l h)"
  by (induction p) auto

lemma inFlight_None: "(inFlight p = None) = (\<forall>l h. core p \<noteq> HookPending l h)"
  by (induction p) auto

lemma todo_settle: "todo (settle r p) = todo p"
  by (induction p) (auto split: option.splits)

lemma core_settle:
  "core p = HookPending l h \<Longrightarrow>
     core (settle r p) = (case r of None \<Rightarrow> Fulfilled | Some n \<Rightarrow> Rejected (HookError n))"
  by (induction p) (auto split: option.splits)

lemma todo_resolve: "todo (resolve g p) = todo p"
  by (induction p) auto

lemma core_resolve:
  "core (resolve g p) = (if core p = GatePending g then Fulfilled else core p)"
  by (induction p) auto

lemma ahead_resolve: "ahead (resolve g p) = ahead p"
  by (auto simp: ahead_def core_resolve todo_resolve split: promise.splits)

lemma failedWith_resolve: "failedWith (core (resolve g p)) = failedWith (core p)"
  by (auto simp: core_resolve)

lemma ahead_settle:
  "inFlight p = Some (l, h) \<Longrightarrow> ahead p = Hook l h # ahead (settle r p)"
  by (auto simp: ahead_def inFlight_core core_settle todo_settle split: option.splits)

lemma failedWith_settle:
  "inFlight p = Some (l, h) \<Longrightarrow> failedWith (core (settle r p)) = Some e \<Longrightarrow> hookFailure e"
  by (auto simp: inFlight_core core_settle split: option.splits)

lemma startChain_resolve: "startChain a tr p \<Longrightarrow> startChain a tr (resolve g p)"
  by (simp add: startChain_def ahead_resolve failedWith_resolve)

lemma stopChain_resolve: "stopChain a p \<Longrightarrow> stopChain a (resolve g p)"
  by (simp add: stopChain_def ahead_resolve failedWith_resolve)

lemma startChain_settle:
  "startChain a tr p \<Longrightarrow> inFlight p = Some (l, h) \<Longrightarrow>
     startChain a (tr @ [Settled l h r]) (settle r p)"
  using failedWith_settle[of p l h r]
  by (auto simp: startChain_def dest!: ahead_settle[where r = r])

lemma stopChain_settle:
  "stopChain a p \<Longrightarrow> inFlight p = Some (l, h) \<Longrightarrow> stopChain a (settle r p)"
  using failedWith_settle[of p l h r]
  by (auto simp: stopChain_def dest!: ahead_settle[where r = r])

text \<open>The chain of \<open>start\<close> is not disturbed by what the chain of \<open>stop\<close> does, and back.\<close>

lemma startChain_other:
  "startChain a tr p \<Longrightarrow> a \<noteq> IDLE \<Longrightarrow>
     tr' = tr \<or> (\<exists>ev. tr' = tr @ [ev] \<and> (\<forall>c. calledTask ev = Some c \<longrightarrow> 10 \<le> place c)) \<Longrightarrow>
     startChain a' tr' p"
  by (auto simp: startChain_def)

lemma stopChain_other:
  "stopChain a p \<Longrightarrow> (a' = STOPPED \<longrightarrow> a = STOPPED) \<Longrightarrow> stopChain a' p"
  by (auto simp: stopChain_def)

lemma getAsync_setAsync:
  "getAsync (setAsync i a s) j =
     (if j = i \<and> i < length (promises s) then Some a else getAsync s j)"
  by (simp add: getAsync_def setAsync_def)

lemma getAsync_newAsync:
  "getAsync (snd (newAsync a s)) j =
     (if j = length (promises s) then Some a else getAsync s j)"
  by (auto simp: getAsync_def newAsync_def nth_append)

lemma fst_newAsync: "fst (newAsync a s) = length (promises s)"
  by (simp add: newAsync_def)

section \<open>Every reachable state is consistent\<close>

lemma getAsync_cong: "promises s' = promises s \<Longrightarrow> getAsync s' = getAsync s"
  by (rule ext) (simp add: getAsync_def)

lemma consistent_frame:
  assumes "consistent s" and "appState s' = appState s" and "trace s' = trace s"
    and "current s' = current s" and "startMemo s' = startMemo s"
    and "stopMemo s' = stopMemo s" and "promises s' = promises s"
  shows "consistent s'"
proof -
  have "consistent s' = consistent s"
    unfolding consistent_def by (simp only: assms(2-6) getAsync_cong[OF assms(7)])
  with assms(1) show ?thesis by simp
qed

lemma consistent_makeApp: "consistent makeApp"
  by (simp add: consistent_def makeApp_def getAsync_def)

lemma consistent_once: "consistent s \<Longrightarrow> consistent (once l fn ord s)"
  by (erule consistent_frame) (simp_all add: once_def Let_def)

lemma consistent_logger: "consistent s \<Longrightarrow> consistent (logger l s)"
  by (erule consistent_frame) (simp_all add: logger_def)

lemma consistent_processExit: "consistent s \<Longrightarrow> consistent (processExit code s)"
  by (erule consistent_frame) (simp_all add: processExit_def)

lemma consistent_deadlineFires: "consistent s \<Longrightarrow> consistent (deadlineFires s)"
  by (erule consistent_frame)
    (simp_all add: deadlineFires_def processExit_def logger_def split: list.splits)

lemma consistent_diagnosticFires: "consistent s \<Longrightarrow> consistent (diagnosticFires s)"
  by (erule consistent_frame) (simp_all add: diagnosticFires_def logger_def)

lemma getAsync_append:
  "promises s' = promises s @ [a] \<Longrightarrow>
     getAsync s' j = (if j = length (promises s) then Some a else getAsync s j)"
  by (auto simp: getAsync_def nth_append)

lemma getAsync_update:
  "promises s' = (promises s)[i := a] \<Longrightarrow>
     getAsync s' j = (if j = i \<and> i < length (promises s) then Some a else getAsync s j)"
  by (auto simp: getAsync_def)

lemma getAsync_length: "getAsync s (length (promises s)) = None"
  by (simp add: getAsync_def)

lemma getAsync_Some_less: "getAsync s i = Some a \<Longrightarrow> i < length (promises s)"
  by (simp add: getAsync_def split: if_splits)

lemma startBody_fresh:
  assumes "appState s = IDLE" "current s = None"
  shows "startBody s =
     (length (promises s),
      s\<lparr>logs := logs s @ [Info ''Starting application''], current := Some RUNNING,
        promises := promises s @
          [StartAwaitChain (promiseChain
             [Status STARTING, Thunk BOOTING, Thunk BOOTED, Thunk READY, Thunk RUNNING, StartedFn])]\<rparr>)"
  using assms
  by (simp add: startBody_def logger_def transition_def makeTransition_def canTransition_index
        newAsync_def)

lemma startChain_fresh:
  "startChain IDLE []
     (promiseChain [Status STARTING, Thunk BOOTING, Thunk BOOTED, Thunk READY, Thunk RUNNING, StartedFn])"
  by (simp add: startChain_def ahead_promiseChain core_promiseChain before_def)

lemma consistent_start: "consistent s \<Longrightarrow> consistent (snd (start s))"
proof (cases "startMemo s")
  case None
  assume w: "consistent s"
  with None have i: "appState s = IDLE" "current s = None" "trace s = []"
    by (simp_all add: consistent_def)
  define s' where "s' = snd (start s)"
  have f: "appState s' = IDLE" "trace s' = []" "stopMemo s' = stopMemo s"
    "startMemo s' = Some (length (promises s))"
    "promises s' = promises s @ [StartAwaitChain (promiseChain
             [Status STARTING, Thunk BOOTING, Thunk BOOTED, Thunk READY, Thunk RUNNING, StartedFn])]"
    using None i by (simp_all add: s'_def start_def memo_def startBody_fresh)
  have "consistent s'"
    unfolding consistent_def
    using w None i startChain_fresh
    by (auto simp: f(1-4) getAsync_append[OF f(5)] getAsync_length consistent_def)
  then show ?thesis by (simp add: s'_def)
next
  case (Some p)
  assume "consistent s"
  with Some show ?thesis by (simp add: start_def memo_def)
qed

lemma getAsync_map_append:
  "promises s' = map f (promises s) @ [a] \<Longrightarrow>
     getAsync s' j = (if j = length (promises s) then Some a else map_option f (getAsync s j))"
  by (auto simp: getAsync_def nth_append)

lemma resolveIn_StartAwaitChain:
  "(resolveIn g a = StartAwaitChain p') = (\<exists>p. a = StartAwaitChain p \<and> p' = resolve g p)"
  by (cases a) auto

lemma resolveIn_StopAwaitChain:
  "(resolveIn g a = StopAwaitChain p') = (\<exists>p. a = StopAwaitChain p \<and> p' = resolve g p)"
  by (cases a) auto

lemma resolveIn_Failed: "(resolveIn g a = Failed e) = (a = Failed e)"
  by (cases a) auto

lemma transition_cases:
  "transition l s = ([], s) \<or> transition l s = ([Thunk l], s\<lparr>current := Some l\<rparr>)"
  by (simp add: transition_def makeTransition_def)

text \<open>What \<open>stop\<close> does when it is called for the first time in a state other than \<open>IDLE\<close>.\<close>

lemma stopBody_fields:
  assumes "appState s \<noteq> IDLE"
  shows "\<exists>f ts. promises (snd (stopBody s)) = map f (promises s) @ [StopAwaitChain (promiseChain ts)] \<and>
           (f = id \<or> (\<exists>g. f = resolveIn g)) \<and>
           sorted_wrt before ts \<and> (\<forall>t \<in> set ts. 10 \<le> place t \<and> place t \<le> 15) \<and>
           fst (stopBody s) = length (promises s) \<and>
           appState (snd (stopBody s)) = appState s \<and> trace (snd (stopBody s)) = trace s \<and>
           startMemo (snd (stopBody s)) = startMemo s \<and> stopMemo (snd (stopBody s)) = stopMemo s \<and>
           exited (snd (stopBody s)) = exited s \<and> forceShutdown (snd (stopBody s)) = forceShutdown s"
proof -
  define s0 where "s0 = (case release s of
       Some g \<Rightarrow> s\<lparr>promises := map (resolveIn g) (promises s), release := None\<rparr> | None \<Rightarrow> s)"
  define s1 where "s1 = logger (Info ''Stopping application'') s0"
  define f where "f = (case release s of Some g \<Rightarrow> resolveIn g | None \<Rightarrow> id)"
  have p0: "promises s1 = map f (promises s)" and r0: "appState s1 = appState s"
    "trace s1 = trace s" "startMemo s1 = startMemo s" "stopMemo s1 = stopMemo s"
    "exited s1 = exited s" "forceShutdown s1 = forceShutdown s"
    and ff: "f = id \<or> (\<exists>g. f = resolveIn g)"
    by (auto simp: s1_def s0_def f_def logger_def split: option.splits)
  have b: "stopBody s =
      (let (t1, s2) = transition SHUTTING_DOWN s1; (t2, s3) = transition TERMINATED s2
       in newAsync (StopAwaitChain (promiseChain ([Status STOPPING] @ t1 @ t2 @ [Status STOPPED]))) s3)"
    using assms by (simp add: stopBody_def s1_def s0_def)
  show ?thesis
    unfolding b
    apply (rule exI[where x = f])
    apply (insert transition_cases[of SHUTTING_DOWN s1] transition_cases[of TERMINATED s1]
      transition_cases[of TERMINATED "s1\<lparr>current := Some SHUTTING_DOWN\<rparr>"] ff)
    by (elim disjE) (auto simp: newAsync_def p0 r0 before_def intro!: exI)
qed


lemma stopBody_idle:
  "appState s = IDLE \<Longrightarrow>
     stopBody s = (length (promises s), s\<lparr>promises := promises s @ [Failed NotRunning]\<rparr>)"
  by (simp add: stopBody_def newAsync_def)

lemma consistent_stop: "consistent s \<Longrightarrow> consistent (snd (stop s))"
proof (cases "stopMemo s")
  case (Some q)
  assume "consistent s"
  with Some show ?thesis by (simp add: stop_def memo_def)
next
  case None
  assume w: "consistent s"
  define s' where "s' = snd (stop s)"
  have s': "s' = (snd (stopBody s))\<lparr>stopMemo := Some (fst (stopBody s))\<rparr>"
    using None by (simp add: s'_def stop_def memo_def split: prod.splits)
  show ?thesis
  proof (cases "appState s = IDLE")
    case True
    have f: "appState s' = appState s" "trace s' = trace s" "current s' = current s"
      "startMemo s' = startMemo s" "stopMemo s' = Some (length (promises s))"
      "promises s' = promises s @ [Failed NotRunning]"
      using True by (simp_all add: s' stopBody_idle)
    have "consistent s'"
      unfolding consistent_def
      using w None True
      by (auto simp: f(1-5) getAsync_append[OF f(6)] getAsync_length consistent_def)
    then show ?thesis by (simp add: s'_def)
  next
    case False
    from stopBody_fields[OF False] obtain f ts where
      p: "promises (snd (stopBody s)) = map f (promises s) @ [StopAwaitChain (promiseChain ts)]"
      and ff: "f = id \<or> (\<exists>g. f = resolveIn g)"
      and ts: "sorted_wrt before ts" "\<forall>t \<in> set ts. 10 \<le> place t \<and> place t \<le> 15"
      and r: "fst (stopBody s) = length (promises s)"
        "appState (snd (stopBody s)) = appState s" "trace (snd (stopBody s)) = trace s"
        "startMemo (snd (stopBody s)) = startMemo s"
      by blast
    have f: "appState s' = appState s" "trace s' = trace s"
      "startMemo s' = startMemo s" "stopMemo s' = Some (length (promises s))"
      and p': "promises s' = map f (promises s) @ [StopAwaitChain (promiseChain ts)]"
      by (simp_all add: s' r p)
    have c: "stopChain (appState s) (promiseChain ts)"
      using w None ts
      by (simp add: stopChain_def ahead_promiseChain core_promiseChain consistent_def)
    have "consistent s'"
      unfolding consistent_def
      using w None False c ff
      by (auto simp: f getAsync_map_append[OF p'] getAsync_length consistent_def
            resolveIn_StartAwaitChain resolveIn_StopAwaitChain resolveIn_Failed
            startChain_resolve split: if_splits)
    then show ?thesis by (simp add: s'_def)
  qed
qed

text \<open>A pending invocation moves on to a state in which it awaits no chain.\<close>

lemma consistent_setAsync:
  assumes w: "consistent s" and a: "getAsync s i = Some a" "a \<noteq> Failed NotRunning"
    and a': "\<forall>p. a' \<noteq> StartAwaitChain p" "\<forall>p. a' \<noteq> StopAwaitChain p" "a' \<noteq> Failed AlreadyStarted"
  shows "consistent (setAsync i a' s)"
proof -
  define s' where "s' = setAsync i a' s"
  have f: "appState s' = appState s" "trace s' = trace s" "current s' = current s"
    "startMemo s' = startMemo s" "stopMemo s' = stopMemo s"
    and p: "promises s' = (promises s)[i := a']"
    by (simp_all add: s'_def setAsync_def)
  have "consistent s'"
    unfolding consistent_def
    using w a a'
    by (auto simp: f getAsync_update[OF p] consistent_def split: if_splits)
  then show ?thesis by (simp add: s'_def)
qed

lemma consistentD:
  assumes "consistent s"
  shows "startMemo s = None \<Longrightarrow> appState s = IDLE \<and> trace s = [] \<and> current s = None"
    and "startMemo s = Some i \<Longrightarrow> getAsync s i \<noteq> None"
    and "stopMemo s = None \<Longrightarrow> appState s \<noteq> STOPPING \<and> appState s \<noteq> STOPPED"
    and "stopMemo s = Some i \<Longrightarrow>
           getAsync s i \<noteq> None \<and> (getAsync s i = Some (Failed NotRunning) \<or> appState s \<noteq> IDLE)"
    and "getAsync s i = Some (StartAwaitChain p) \<Longrightarrow>
           startMemo s = Some i \<and> startChain (appState s) (trace s) p"
    and "getAsync s i = Some (StopAwaitChain p) \<Longrightarrow>
           stopMemo s = Some i \<and> stopChain (appState s) p \<and> appState s \<noteq> IDLE"
    and "getAsync s i \<noteq> Some (Failed AlreadyStarted)"
  using assms unfolding consistent_def by blast+

lemma consistentI:
  assumes "startMemo s = None \<Longrightarrow> appState s = IDLE \<and> trace s = [] \<and> current s = None"
    and "\<And>i. startMemo s = Some i \<Longrightarrow> getAsync s i \<noteq> None"
    and "stopMemo s = None \<Longrightarrow> appState s \<noteq> STOPPING \<and> appState s \<noteq> STOPPED"
    and "\<And>i. stopMemo s = Some i \<Longrightarrow>
           getAsync s i \<noteq> None \<and> (getAsync s i = Some (Failed NotRunning) \<or> appState s \<noteq> IDLE)"
    and "\<And>i p. getAsync s i = Some (StartAwaitChain p) \<Longrightarrow>
           startMemo s = Some i \<and> startChain (appState s) (trace s) p"
    and "\<And>i p. getAsync s i = Some (StopAwaitChain p) \<Longrightarrow>
           stopMemo s = Some i \<and> stopChain (appState s) p \<and> appState s \<noteq> IDLE"
    and "\<And>i. getAsync s i \<noteq> Some (Failed AlreadyStarted)"
  shows "consistent s"
  unfolding consistent_def using assms by blast

lemma consistent_tick_start:
  assumes w: "consistent s" and a: "getAsync s i = Some (StartAwaitChain p)"
    and t: "tick p s = (p', s')"
  shows "consistent (setAsync i (StartAwaitChain p') s')"
proof -
  define s2 where "s2 = setAsync i (StartAwaitChain p') s'"
  from consistentD(5)[OF w a] have m: "startMemo s = Some i"
    and c: "startChain (appState s) (trace s) p" by simp_all
  note fr = tick_frame[OF t]
  have f: "appState s2 = appState s'" "trace s2 = trace s'"
    "startMemo s2 = Some i" "stopMemo s2 = stopMemo s"
    using fr m by (simp_all add: s2_def setAsync_def)
  have "promises s2 = (promises s)[i := StartAwaitChain p']"
    using fr by (simp add: s2_def setAsync_def)
  from getAsync_update[OF this] getAsync_Some_less[OF a]
  have g: "getAsync s2 k = (if k = i then Some (StartAwaitChain p') else getAsync s k)" for k
    by simp
  note c' = tick_startChain[OF t c]
  from tick_start_effect[OF t c]
  have e: "appState s' = appState s \<or> appState s' = STARTING \<or> appState s' = STARTED" by simp
  have "consistent s2"
  proof (rule consistentI)
    assume "startMemo s2 = None"
    then show "appState s2 = IDLE \<and> trace s2 = [] \<and> current s2 = None" by (simp add: f)
  next
    fix k assume "startMemo s2 = Some k"
    then show "getAsync s2 k \<noteq> None" by (simp add: f g)
  next
    assume "stopMemo s2 = None"
    with consistentD(3)[OF w] e show "appState s2 \<noteq> STOPPING \<and> appState s2 \<noteq> STOPPED"
      by (auto simp: f)
  next
    fix k assume k: "stopMemo s2 = Some k"
    with consistentD(4)[OF w, of k] a e
    show "getAsync s2 k \<noteq> None \<and> (getAsync s2 k = Some (Failed NotRunning) \<or> appState s2 \<noteq> IDLE)"
      by (auto simp: f g)
  next
    fix k q assume "getAsync s2 k = Some (StartAwaitChain q)"
    with consistentD(5)[OF w, of k q] m c'
    show "startMemo s2 = Some k \<and> startChain (appState s2) (trace s2) q"
      by (auto simp: f g split: if_splits)
  next
    fix k q assume k: "getAsync s2 k = Some (StopAwaitChain q)"
    then have k': "getAsync s k = Some (StopAwaitChain q)" by (simp add: g split: if_splits)
    from consistentD(6)[OF w k'] have d: "stopMemo s = Some k" "stopChain (appState s) q"
      "appState s \<noteq> IDLE" by simp_all
    have "stopChain (appState s') q" using d(2) e d(3) by (auto intro: stopChain_other)
    with d e show "stopMemo s2 = Some k \<and> stopChain (appState s2) q \<and> appState s2 \<noteq> IDLE"
      by (auto simp: f)
  next
    fix k show "getAsync s2 k \<noteq> Some (Failed AlreadyStarted)"
      using consistentD(7)[OF w, of k] by (simp add: g)
  qed
  then show ?thesis by (simp add: s2_def)
qed

lemma consistent_tick_stop:
  assumes w: "consistent s" and a: "getAsync s i = Some (StopAwaitChain p)"
    and t: "tick p s = (p', s')"
  shows "consistent (setAsync i (StopAwaitChain p') s')"
proof -
  define s2 where "s2 = setAsync i (StopAwaitChain p') s'"
  from consistentD(6)[OF w a] have m: "stopMemo s = Some i"
    and c: "stopChain (appState s) p" and n: "appState s \<noteq> IDLE" by simp_all
  note fr = tick_frame[OF t]
  have f: "appState s2 = appState s'" "trace s2 = trace s'"
    "startMemo s2 = startMemo s" "stopMemo s2 = Some i"
    using fr m by (simp_all add: s2_def setAsync_def)
  have "promises s2 = (promises s)[i := StopAwaitChain p']"
    using fr by (simp add: s2_def setAsync_def)
  from getAsync_update[OF this] getAsync_Some_less[OF a]
  have g: "getAsync s2 k = (if k = i then Some (StopAwaitChain p') else getAsync s k)" for k
    by simp
  note c' = tick_stopChain[OF t c]
  from tick_stop_effect[OF t c]
  have e: "appState s' = appState s \<or> appState s' = STOPPING \<or> appState s' = STOPPED"
    and tr: "trace s' = trace s \<or> (\<exists>l h. trace s' = trace s @ [Called l h] \<and> 10 \<le> place (Hook l h))"
    by simp_all
  from e n have n': "appState s' \<noteq> IDLE" by auto
  have "consistent s2"
  proof (rule consistentI)
    assume "startMemo s2 = None"
    with consistentD(1)[OF w] n
    show "appState s2 = IDLE \<and> trace s2 = [] \<and> current s2 = None" by (simp add: f)
  next
    fix k assume "startMemo s2 = Some k"
    with consistentD(2)[OF w, of k] show "getAsync s2 k \<noteq> None" by (simp add: f g)
  next
    assume "stopMemo s2 = None"
    then show "appState s2 \<noteq> STOPPING \<and> appState s2 \<noteq> STOPPED" by (simp add: f)
  next
    fix k assume k: "stopMemo s2 = Some k"
    with n' show "getAsync s2 k \<noteq> None \<and> (getAsync s2 k = Some (Failed NotRunning) \<or> appState s2 \<noteq> IDLE)"
      by (simp add: f g)
  next
    fix k q assume k: "getAsync s2 k = Some (StartAwaitChain q)"
    then have k': "getAsync s k = Some (StartAwaitChain q)" by (simp add: g split: if_splits)
    from consistentD(5)[OF w k'] have d: "startMemo s = Some k" "startChain (appState s) (trace s) q"
      by simp_all
    have "startChain (appState s') (trace s') q"
      using d(2) n tr by (elim startChain_other) auto
    with d show "startMemo s2 = Some k \<and> startChain (appState s2) (trace s2) q"
      by (simp add: f)
  next
    fix k q assume "getAsync s2 k = Some (StopAwaitChain q)"
    with consistentD(6)[OF w, of k q] m c' n'
    show "stopMemo s2 = Some k \<and> stopChain (appState s2) q \<and> appState s2 \<noteq> IDLE"
      by (auto simp: f g split: if_splits)
  next
    fix k show "getAsync s2 k \<noteq> Some (Failed AlreadyStarted)"
      using consistentD(7)[OF w, of k] by (simp add: g)
  qed
  then show ?thesis by (simp add: s2_def)
qed

lemma consistent_settle_start:
  assumes w: "consistent s" and a: "getAsync s i = Some (StartAwaitChain p)"
    and fl: "inFlight p = Some (l, h)"
  shows "consistent (setAsync i (StartAwaitChain (settle r p)) (s\<lparr>trace := trace s @ [Settled l h r]\<rparr>))"
proof -
  define s2 where "s2 = setAsync i (StartAwaitChain (settle r p)) (s\<lparr>trace := trace s @ [Settled l h r]\<rparr>)"
  from consistentD(5)[OF w a] have m: "startMemo s = Some i"
    and c: "startChain (appState s) (trace s) p" by simp_all
  have f: "appState s2 = appState s" "trace s2 = trace s @ [Settled l h r]"
    "startMemo s2 = Some i" "stopMemo s2 = stopMemo s"
    using m by (simp_all add: s2_def setAsync_def)
  have "promises s2 = (promises s)[i := StartAwaitChain (settle r p)]"
    by (simp add: s2_def setAsync_def)
  from getAsync_update[OF this] getAsync_Some_less[OF a]
  have g: "getAsync s2 k = (if k = i then Some (StartAwaitChain (settle r p)) else getAsync s k)" for k
    by simp
  note c' = startChain_settle[OF c fl, of r]
  have "consistent s2"
  proof (rule consistentI)
    assume "startMemo s2 = None"
    then show "appState s2 = IDLE \<and> trace s2 = [] \<and> current s2 = None" by (simp add: f)
  next
    fix k assume "startMemo s2 = Some k"
    then show "getAsync s2 k \<noteq> None" by (simp add: f g)
  next
    assume "stopMemo s2 = None"
    with consistentD(3)[OF w] show "appState s2 \<noteq> STOPPING \<and> appState s2 \<noteq> STOPPED"
      by (simp add: f)
  next
    fix k assume k: "stopMemo s2 = Some k"
    with consistentD(4)[OF w, of k] a
    show "getAsync s2 k \<noteq> None \<and> (getAsync s2 k = Some (Failed NotRunning) \<or> appState s2 \<noteq> IDLE)"
      by (auto simp: f g)
  next
    fix k q assume "getAsync s2 k = Some (StartAwaitChain q)"
    with consistentD(5)[OF w, of k q] m c'
    show "startMemo s2 = Some k \<and> startChain (appState s2) (trace s2) q"
      by (auto simp: f g split: if_splits)
  next
    fix k q assume k: "getAsync s2 k = Some (StopAwaitChain q)"
    then have k': "getAsync s k = Some (StopAwaitChain q)" by (simp add: g split: if_splits)
    from consistentD(6)[OF w k']
    show "stopMemo s2 = Some k \<and> stopChain (appState s2) q \<and> appState s2 \<noteq> IDLE"
      by (simp add: f)
  next
    fix k show "getAsync s2 k \<noteq> Some (Failed AlreadyStarted)"
      using consistentD(7)[OF w, of k] by (simp add: g)
  qed
  then show ?thesis by (simp add: s2_def)
qed

lemma consistent_settle_stop:
  assumes w: "consistent s" and a: "getAsync s i = Some (StopAwaitChain p)"
    and fl: "inFlight p = Some (l, h)"
  shows "consistent (setAsync i (StopAwaitChain (settle r p)) (s\<lparr>trace := trace s @ [Settled l h r]\<rparr>))"
proof -
  define s2 where "s2 = setAsync i (StopAwaitChain (settle r p)) (s\<lparr>trace := trace s @ [Settled l h r]\<rparr>)"
  from consistentD(6)[OF w a] have m: "stopMemo s = Some i"
    and c: "stopChain (appState s) p" and n: "appState s \<noteq> IDLE" by simp_all
  have f: "appState s2 = appState s" "trace s2 = trace s @ [Settled l h r]"
    "startMemo s2 = startMemo s" "stopMemo s2 = Some i"
    using m by (simp_all add: s2_def setAsync_def)
  have "promises s2 = (promises s)[i := StopAwaitChain (settle r p)]"
    by (simp add: s2_def setAsync_def)
  from getAsync_update[OF this] getAsync_Some_less[OF a]
  have g: "getAsync s2 k = (if k = i then Some (StopAwaitChain (settle r p)) else getAsync s k)" for k
    by simp
  note c' = stopChain_settle[OF c fl, of r]
  have "consistent s2"
  proof (rule consistentI)
    assume "startMemo s2 = None"
    with consistentD(1)[OF w] n
    show "appState s2 = IDLE \<and> trace s2 = [] \<and> current s2 = None" by (simp add: f)
  next
    fix k assume "startMemo s2 = Some k"
    with consistentD(2)[OF w, of k] show "getAsync s2 k \<noteq> None" by (simp add: f g)
  next
    assume "stopMemo s2 = None"
    then show "appState s2 \<noteq> STOPPING \<and> appState s2 \<noteq> STOPPED" by (simp add: f)
  next
    fix k assume k: "stopMemo s2 = Some k"
    with n show "getAsync s2 k \<noteq> None \<and> (getAsync s2 k = Some (Failed NotRunning) \<or> appState s2 \<noteq> IDLE)"
      by (simp add: f g)
  next
    fix k q assume k: "getAsync s2 k = Some (StartAwaitChain q)"
    then have k': "getAsync s k = Some (StartAwaitChain q)" by (simp add: g split: if_splits)
    from consistentD(5)[OF w k'] have d: "startMemo s = Some k" "startChain (appState s) (trace s) q"
      by simp_all
    have "startChain (appState s) (trace s @ [Settled l h r]) q"
      using d(2) n by (elim startChain_other) auto
    with d show "startMemo s2 = Some k \<and> startChain (appState s2) (trace s2) q"
      by (simp add: f)
  next
    fix k q assume "getAsync s2 k = Some (StopAwaitChain q)"
    with consistentD(6)[OF w, of k q] m c' n
    show "stopMemo s2 = Some k \<and> stopChain (appState s2) q \<and> appState s2 \<noteq> IDLE"
      by (auto simp: f g split: if_splits)
  next
    fix k show "getAsync s2 k \<noteq> Some (Failed AlreadyStarted)"
      using consistentD(7)[OF w, of k] by (simp add: g)
  qed
  then show ?thesis by (simp add: s2_def)
qed

lemma setAsync_same: "getAsync s i = Some a \<Longrightarrow> setAsync i a s = s"
proof -
  assume "getAsync s i = Some a"
  then have "(promises s)[i := a] = promises s"
    by (auto simp: getAsync_def split: if_splits)
  then show ?thesis by (simp add: setAsync_def)
qed

lemma consistent_settleHook: "consistent s \<Longrightarrow> consistent (settleHook i r s)"
  by (auto simp: settleHook_def settleIn_def consistent_settle_start consistent_settle_stop
        setAsync_same split: option.splits async.splits)

text \<open>A call of \<open>stop\<close> settles no invocation but its own.\<close>

lemma stop_keeps_pending:
  assumes "getAsync s i = Some a" "a \<noteq> Failed NotRunning"
  shows "\<exists>a'. getAsync (snd (stop s)) i = Some a' \<and> a' \<noteq> Failed NotRunning"
proof (cases "stopMemo s")
  case (Some q)
  with assms show ?thesis by (simp add: stop_def memo_def)
next
  case None
  have i: "i \<noteq> length (promises s)" using getAsync_Some_less[OF assms(1)] by simp
  have s': "promises (snd (stop s)) = promises (snd (stopBody s))"
    using None by (simp add: stop_def memo_def split: prod.splits)
  show ?thesis
  proof (cases "appState s = IDLE")
    case True
    then have "promises (snd (stop s)) = promises s @ [Failed NotRunning]"
      by (simp add: s' stopBody_idle)
    from getAsync_append[OF this, of i] assms i show ?thesis by simp
  next
    case False
    from stopBody_fields[OF False] obtain f ts where
      p: "promises (snd (stopBody s)) = map f (promises s) @ [StopAwaitChain (promiseChain ts)]"
      and ff: "f = id \<or> (\<exists>g. f = resolveIn g)" by blast
    from p s' have "promises (snd (stop s)) = map f (promises s) @ [StopAwaitChain (promiseChain ts)]"
      by simp
    from getAsync_map_append[OF this, of i] assms i ff show ?thesis
      by (auto simp: resolveIn_Failed)
  qed
qed

lemma consistent_newAsync_shutdown:
  assumes w: "consistent s"
  shows "consistent (snd (newAsync (ShutdownAwaitStop code q) s))"
proof -
  define s2 where "s2 = snd (newAsync (ShutdownAwaitStop code q) s)"
  have f: "appState s2 = appState s" "trace s2 = trace s" "current s2 = current s"
    "startMemo s2 = startMemo s" "stopMemo s2 = stopMemo s"
    and p: "promises s2 = promises s @ [ShutdownAwaitStop code q]"
    by (simp_all add: s2_def newAsync_def)
  have g: "getAsync s2 k = (if k = length (promises s) then Some (ShutdownAwaitStop code q) else getAsync s k)" for k
    by (rule getAsync_append[OF p])
  have n: "getAsync s k \<noteq> None \<Longrightarrow> k \<noteq> length (promises s)" for k
    using getAsync_length[of s] by auto
  have "consistent s2"
  proof (rule consistentI)
    assume "startMemo s2 = None"
    with consistentD(1)[OF w]
    show "appState s2 = IDLE \<and> trace s2 = [] \<and> current s2 = None" by (simp add: f)
  next
    fix k assume "startMemo s2 = Some k"
    with consistentD(2)[OF w, of k] show "getAsync s2 k \<noteq> None" by (simp add: f g)
  next
    assume "stopMemo s2 = None"
    with consistentD(3)[OF w] show "appState s2 \<noteq> STOPPING \<and> appState s2 \<noteq> STOPPED"
      by (simp add: f)
  next
    fix k assume k: "stopMemo s2 = Some k"
    with consistentD(4)[OF w, of k] n[of k]
    show "getAsync s2 k \<noteq> None \<and> (getAsync s2 k = Some (Failed NotRunning) \<or> appState s2 \<noteq> IDLE)"
      by (simp add: f g)
  next
    fix k r assume "getAsync s2 k = Some (StartAwaitChain r)"
    then have "getAsync s k = Some (StartAwaitChain r)" by (simp add: g split: if_splits)
    from consistentD(5)[OF w this]
    show "startMemo s2 = Some k \<and> startChain (appState s2) (trace s2) r" by (simp add: f)
  next
    fix k r assume "getAsync s2 k = Some (StopAwaitChain r)"
    then have "getAsync s k = Some (StopAwaitChain r)" by (simp add: g split: if_splits)
    from consistentD(6)[OF w this]
    show "stopMemo s2 = Some k \<and> stopChain (appState s2) r \<and> appState s2 \<noteq> IDLE"
      by (simp add: f)
  next
    fix k show "getAsync s2 k \<noteq> Some (Failed AlreadyStarted)"
      using consistentD(7)[OF w, of k] by (simp add: g)
  qed
  then show ?thesis by (simp add: s2_def)
qed

lemma consistent_shutdown: "consistent s \<Longrightarrow> consistent (shutdown code s)"
proof -
  assume w: "consistent s"
  define s1 where "s1 = (logger (Stdout [CHR 0x0A]) s)\<lparr>deadlines := deadlines (logger (Stdout [CHR 0x0A]) s) @ [code]\<rparr>"
  have w1: "consistent s1"
    by (rule consistent_frame[OF w]) (simp_all add: s1_def logger_def)
  have w2: "consistent ((logger l s1)\<lparr>forceShutdown := True\<rparr>)" for l
    by (rule consistent_frame[OF w1]) (simp_all add: logger_def)
  have w3: "consistent (snd (newAsync (ShutdownAwaitStop code (fst (stop s1))) (snd (stop s1))))"
    by (intro consistent_newAsync_shutdown consistent_stop w1)
  have sh: "shutdown code s =
     (if appState s1 = STOPPING \<and> code = 0 then
        (if forceShutdown s1 then processExit code s1
         else (logger (Warn ''The application is yet to finishing the shutdown process. Repeat the command to force exit'') s1)
                \<lparr>forceShutdown := True\<rparr>)
      else if appState s1 \<noteq> STOPPED then
        snd (newAsync (ShutdownAwaitStop code (fst (stop s1))) (snd (stop s1)))
      else processExit code s1)"
    unfolding shutdown_def s1_def Let_def by (simp add: case_prod_beta)
  show ?thesis
    unfolding sh using w1 w2 w3 by (simp add: consistent_processExit)
qed

lemma resume_StartAwaitChain:
  "getAsync s i = Some (StartAwaitChain p) \<Longrightarrow>
     resume i s =
       (case p of
          Fulfilled \<Rightarrow> setAsync i Resolved s
        | Rejected e \<Rightarrow>
            setAsync i (StartAwaitStop (fst (stop (logger (ErrorObj e) s))))
              (snd (stop (logger (ErrorObj e) s)))
        | _ \<Rightarrow> setAsync i (StartAwaitChain (fst (tick p s))) (snd (tick p s)))"
  by (simp add: resume_def case_prod_beta Let_def split: promise.splits)

lemma resume_StopAwaitChain:
  "getAsync s i = Some (StopAwaitChain p) \<Longrightarrow>
     resume i s =
       (case p of
          Fulfilled \<Rightarrow> setAsync i Resolved (s\<lparr>diagnostics := Suc (diagnostics s)\<rparr>)
        | Rejected e \<Rightarrow> setAsync i (Failed e) s
        | _ \<Rightarrow> setAsync i (StopAwaitChain (fst (tick p s))) (snd (tick p s)))"
  by (simp add: resume_def case_prod_beta split: promise.splits)

lemma resume_StartAwaitStop:
  "getAsync s i = Some (StartAwaitStop q) \<Longrightarrow>
     resume i s =
       (case getAsync s q of
          Some Resolved \<Rightarrow> setAsync i Resolved s
        | Some (Failed e) \<Rightarrow> setAsync i (Failed e) s
        | _ \<Rightarrow> s)"
  by (simp add: resume_def)

lemma resume_ShutdownAwaitStop:
  "getAsync s i = Some (ShutdownAwaitStop code q) \<Longrightarrow>
     resume i s =
       (case getAsync s q of
          Some Resolved \<Rightarrow> processExit code s
        | Some (Failed e) \<Rightarrow> processExit code (logger (ErrorObj e) s)
        | _ \<Rightarrow> s)"
  by (simp add: resume_def)

lemma resume_settled:
  "getAsync s i = None \<or> getAsync s i = Some Resolved \<or> getAsync s i = Some (Failed e) \<Longrightarrow>
     resume i s = s"
  by (auto simp: resume_def)

lemma consistent_resume_start:
  assumes w: "consistent s" and a: "getAsync s i = Some (StartAwaitChain p)"
  shows "consistent (resume i s)"
proof (cases p)
  case Fulfilled
  from consistent_setAsync[OF w a, of Resolved] show ?thesis
    by (simp add: resume_StartAwaitChain[OF a] Fulfilled)
next
  case (Rejected e)
  define s1 where "s1 = logger (ErrorObj e) s"
  have w1: "consistent (snd (stop s1))"
    unfolding s1_def by (intro consistent_stop consistent_logger w)
  have "getAsync s1 = getAsync s"
    by (rule getAsync_cong) (simp add: s1_def logger_def)
  with a have "getAsync s1 i = Some (StartAwaitChain p)" by simp
  from stop_keeps_pending[OF this] obtain a' where
    a': "getAsync (snd (stop s1)) i = Some a'" "a' \<noteq> Failed NotRunning" by auto
  from consistent_setAsync[OF w1 a', of "StartAwaitStop (fst (stop s1))"] show ?thesis
    by (simp add: resume_StartAwaitChain[OF a] Rejected s1_def)
next
  case (HookPending l h)
  from consistent_tick_start[OF w a, of "fst (tick p s)" "snd (tick p s)"] show ?thesis
    by (simp add: resume_StartAwaitChain[OF a] HookPending)
next
  case (GatePending g)
  from consistent_tick_start[OF w a, of "fst (tick p s)" "snd (tick p s)"] show ?thesis
    by (simp add: resume_StartAwaitChain[OF a] GatePending)
next
  case (Then c fn)
  from consistent_tick_start[OF w a, of "fst (tick p s)" "snd (tick p s)"] show ?thesis
    by (simp add: resume_StartAwaitChain[OF a] Then)
next
  case (Follow q)
  from consistent_tick_start[OF w a, of "fst (tick p s)" "snd (tick p s)"] show ?thesis
    by (simp add: resume_StartAwaitChain[OF a] Follow)
qed

lemma consistent_resume_stop:
  assumes w: "consistent s" and a: "getAsync s i = Some (StopAwaitChain p)"
  shows "consistent (resume i s)"
proof (cases p)
  case Fulfilled
  have w1: "consistent (s\<lparr>diagnostics := Suc (diagnostics s)\<rparr>)"
    by (rule consistent_frame[OF w]) simp_all
  have "getAsync (s\<lparr>diagnostics := Suc (diagnostics s)\<rparr>) = getAsync s"
    by (rule getAsync_cong) simp
  with a have "getAsync (s\<lparr>diagnostics := Suc (diagnostics s)\<rparr>) i = Some (StopAwaitChain p)"
    by simp
  from consistent_setAsync[OF w1 this, of Resolved] show ?thesis
    by (simp add: resume_StopAwaitChain[OF a] Fulfilled)
next
  case (Rejected e)
  from consistentD(6)[OF w a] have "hookFailure e"
    by (simp add: stopChain_def Rejected)
  then have "Failed e \<noteq> Failed AlreadyStarted" by (cases e) auto
  with consistent_setAsync[OF w a, of "Failed e"] show ?thesis
    by (simp add: resume_StopAwaitChain[OF a] Rejected)
next
  case (HookPending l h)
  from consistent_tick_stop[OF w a, of "fst (tick p s)" "snd (tick p s)"] show ?thesis
    by (simp add: resume_StopAwaitChain[OF a] HookPending)
next
  case (GatePending g)
  from consistent_tick_stop[OF w a, of "fst (tick p s)" "snd (tick p s)"] show ?thesis
    by (simp add: resume_StopAwaitChain[OF a] GatePending)
next
  case (Then c fn)
  from consistent_tick_stop[OF w a, of "fst (tick p s)" "snd (tick p s)"] show ?thesis
    by (simp add: resume_StopAwaitChain[OF a] Then)
next
  case (Follow q)
  from consistent_tick_stop[OF w a, of "fst (tick p s)" "snd (tick p s)"] show ?thesis
    by (simp add: resume_StopAwaitChain[OF a] Follow)
qed

lemma consistent_resume_await:
  assumes w: "consistent s" and a: "getAsync s i = Some (StartAwaitStop q)"
  shows "consistent (resume i s)"
proof (cases "getAsync s q")
  case None
  with w show ?thesis by (simp add: resume_StartAwaitStop[OF a])
next
  case (Some b)
  show ?thesis
  proof (cases b)
    case Resolved
    from consistent_setAsync[OF w a, of Resolved] show ?thesis
      by (simp add: resume_StartAwaitStop[OF a] Some Resolved)
  next
    case (Failed e)
    from consistentD(7)[OF w, of q] have "Failed e \<noteq> Failed AlreadyStarted"
      by (auto simp: Some Failed)
    with consistent_setAsync[OF w a, of "Failed e"] show ?thesis
      by (simp add: resume_StartAwaitStop[OF a] Some Failed)
  qed (use w in \<open>simp_all add: resume_StartAwaitStop[OF a] Some\<close>)
qed

lemma consistent_resume_shutdown:
  assumes w: "consistent s" and a: "getAsync s i = Some (ShutdownAwaitStop code q)"
  shows "consistent (resume i s)"
proof (cases "getAsync s q")
  case None
  with w show ?thesis by (simp add: resume_ShutdownAwaitStop[OF a])
next
  case (Some b)
  show ?thesis
    by (cases b)
      (simp_all add: resume_ShutdownAwaitStop[OF a] Some w consistent_processExit consistent_logger)
qed

lemma consistent_resume: "consistent s \<Longrightarrow> consistent (resume i s)"
proof -
  assume w: "consistent s"
  show ?thesis
  proof (cases "getAsync s i")
    case None
    with w show ?thesis by (simp add: resume_settled)
  next
    case (Some a)
    with w show ?thesis
      by (cases a)
        (simp_all add: consistent_resume_start consistent_resume_stop consistent_resume_await
           consistent_resume_shutdown resume_settled)
  qed
qed

lemma consistent_step: "consistent s \<Longrightarrow> consistent (step e s)"
  by (cases e)
    (simp_all add: step_def consistent_start consistent_stop consistent_once consistent_shutdown
       consistent_resume consistent_settleHook consistent_deadlineFires consistent_diagnosticFires)

lemma consistent_run: "consistent s \<Longrightarrow> consistent (run es s)"
  by (induction es arbitrary: s) (simp_all add: consistent_step)

lemma consistent_reachable: "consistent (run es makeApp)"
  by (rule consistent_run[OF consistent_makeApp])

section \<open>What later states keep\<close>

lemma keeps_refl: "keeps s s"
  by (simp add: keeps_def)

lemma keeps_trans: "keeps s s' \<Longrightarrow> keeps s' s'' \<Longrightarrow> keeps s s''"
  unfolding keeps_def by blast

lemma keeps_fields:
  assumes "startMemo s' = startMemo s" "stopMemo s' = stopMemo s" "promises s' = promises s"
    "forceShutdown s \<longrightarrow> forceShutdown s'"
  shows "keeps s s'"
  unfolding keeps_def using assms(1,2,4) by (simp add: getAsync_cong[OF assms(3)])

lemma keeps_update:
  assumes "startMemo s' = startMemo s" "stopMemo s' = stopMemo s"
    "promises s' = (promises s)[i := a']" "forceShutdown s' = forceShutdown s"
    and a: "getAsync s i \<noteq> Some Resolved" "\<forall>e. getAsync s i \<noteq> Some (Failed e)"
  shows "keeps s s'"
  unfolding keeps_def using assms(1,2,4) a
  by (auto simp: getAsync_update[OF assms(3)])

lemma keeps_setAsync:
  assumes "getAsync s i \<noteq> Some Resolved" "\<forall>e. getAsync s i \<noteq> Some (Failed e)"
  shows "keeps s (setAsync i a' s)"
  by (rule keeps_update[where i = i and a' = a']) (use assms in \<open>simp_all add: setAsync_def\<close>)

lemma keeps_append:
  assumes "\<And>p. startMemo s = Some p \<Longrightarrow> startMemo s' = Some p"
    "\<And>q. stopMemo s = Some q \<Longrightarrow> stopMemo s' = Some q"
    "promises s' = map f (promises s) @ [a]" "forceShutdown s' = forceShutdown s"
    "f = id \<or> (\<exists>g. f = resolveIn g)"
  shows "keeps s s'"
proof -
  have r: "f Resolved = Resolved" "f (Failed e) = Failed e" for e
    using assms(5) by auto
  have n: "getAsync s k = Some b \<Longrightarrow> k \<noteq> length (promises s)" for k b
    using getAsync_length[of s] by auto
  show ?thesis
    unfolding keeps_def using assms(1,2,4) r n
    by (auto simp: getAsync_map_append[OF assms(3)])
qed

lemma start_memo: "startMemo s = Some p \<Longrightarrow> start s = (p, s)"
  by (simp add: start_def memo_def)

lemma stop_memo: "stopMemo s = Some q \<Longrightarrow> stop s = (q, s)"
  by (simp add: stop_def memo_def)

lemma start_sets_memo: "startMemo (snd (start s)) = Some (fst (start s))"
  by (simp add: start_def memo_def split: option.splits prod.splits)

lemma stop_sets_memo: "stopMemo (snd (stop s)) = Some (fst (stop s))"
  by (simp add: stop_def memo_def split: option.splits prod.splits)

lemma startBody_fields:
  "\<exists>a. promises (snd (startBody s)) = promises s @ [a] \<and>
       startMemo (snd (startBody s)) = startMemo s \<and> stopMemo (snd (startBody s)) = stopMemo s \<and>
       forceShutdown (snd (startBody s)) = forceShutdown s \<and> exited (snd (startBody s)) = exited s"
  using transition_cases[of BOOTING "logger (Info ''Starting application'') s"]
  by (auto simp: startBody_def newAsync_def logger_def transition_def makeTransition_def Let_def
        split: prod.splits if_splits)

lemma keeps_start: "keeps s (snd (start s))"
proof (cases "startMemo s")
  case (Some p)
  then show ?thesis by (simp add: start_memo keeps_refl)
next
  case None
  from startBody_fields[of s] obtain a where
    f: "promises (snd (startBody s)) = promises s @ [a]"
    "stopMemo (snd (startBody s)) = stopMemo s"
    "forceShutdown (snd (startBody s)) = forceShutdown s" by blast
  have s': "snd (start s) = (snd (startBody s))\<lparr>startMemo := Some (fst (startBody s))\<rparr>"
    using None by (simp add: start_def memo_def split: prod.splits)
  show ?thesis
    by (rule keeps_append[where f = id and a = a]) (simp_all add: s' f None)
qed

lemma keeps_stop: "keeps s (snd (stop s))"
proof (cases "stopMemo s")
  case (Some p)
  then show ?thesis by (simp add: stop_memo keeps_refl)
next
  case None
  have s': "snd (stop s) = (snd (stopBody s))\<lparr>stopMemo := Some (fst (stopBody s))\<rparr>"
    using None by (simp add: stop_def memo_def split: prod.splits)
  show ?thesis
  proof (cases "appState s = IDLE")
    case True
    show ?thesis
      by (rule keeps_append[where f = id and a = "Failed NotRunning"])
        (simp_all add: s' stopBody_idle True None)
  next
    case False
    from stopBody_fields[OF False] obtain f ts where
      p: "promises (snd (stopBody s)) = map f (promises s) @ [StopAwaitChain (promiseChain ts)]"
      and ff: "f = id \<or> (\<exists>g. f = resolveIn g)"
      and r: "startMemo (snd (stopBody s)) = startMemo s"
        "forceShutdown (snd (stopBody s)) = forceShutdown s"
      by blast
    show ?thesis
      by (rule keeps_append[where f = f and a = "StopAwaitChain (promiseChain ts)"])
        (simp_all add: s' p r ff None)
  qed
qed



lemma stop_keeps_chain:
  assumes "getAsync s i = Some (StartAwaitChain p)"
  shows "\<exists>p'. getAsync (snd (stop s)) i = Some (StartAwaitChain p')"
proof (cases "stopMemo s")
  case (Some q)
  with assms show ?thesis by (simp add: stop_memo)
next
  case None
  have i: "i \<noteq> length (promises s)" using getAsync_Some_less[OF assms(1)] by simp
  have s': "promises (snd (stop s)) = promises (snd (stopBody s))"
    using None by (simp add: stop_def memo_def split: prod.splits)
  show ?thesis
  proof (cases "appState s = IDLE")
    case True
    then have "promises (snd (stop s)) = promises s @ [Failed NotRunning]"
      by (simp add: s' stopBody_idle)
    from getAsync_append[OF this, of i] assms i show ?thesis by simp
  next
    case False
    from stopBody_fields[OF False] obtain f ts where
      p: "promises (snd (stopBody s)) = map f (promises s) @ [StopAwaitChain (promiseChain ts)]"
      and ff: "f = id \<or> (\<exists>g. f = resolveIn g)" by blast
    from p s' have "promises (snd (stop s)) = map f (promises s) @ [StopAwaitChain (promiseChain ts)]"
      by simp
    from getAsync_map_append[OF this, of i] assms i ff show ?thesis
      by auto
  qed
qed

lemma keeps_tick:
  assumes a: "getAsync s i = Some a" "a \<noteq> Resolved" "\<forall>e. a \<noteq> Failed e"
  shows "keeps s (setAsync i a' (snd (tick p s)))"
proof -
  note fr = tick_frame[of p s "fst (tick p s)" "snd (tick p s)", simplified]
  show ?thesis
    by (rule keeps_update[where i = i and a' = a'])
      (use fr a in \<open>simp_all add: setAsync_def\<close>)
qed

lemma keeps_resume: "keeps s (resume i s)"
proof (cases "getAsync s i")
  case None
  then show ?thesis by (simp add: resume_settled keeps_refl)
next
  case (Some a)
  show ?thesis
  proof (cases a)
    case (StartAwaitChain p)
    note a = Some[unfolded StartAwaitChain]
    have t: "keeps s (setAsync i (StartAwaitChain (fst (tick p s))) (snd (tick p s)))"
      by (rule keeps_tick[OF a]) simp_all
    show ?thesis
    proof (cases p)
      case Fulfilled
      show ?thesis
        by (simp add: resume_StartAwaitChain[OF a] Fulfilled keeps_setAsync a)
    next
      case (Rejected e)
      define s1 where "s1 = logger (ErrorObj e) s"
      have k1: "keeps s s1" by (rule keeps_fields) (simp_all add: s1_def logger_def)
      have "getAsync s1 = getAsync s"
        by (rule getAsync_cong) (simp add: s1_def logger_def)
      with a have "getAsync s1 i = Some (StartAwaitChain p)" by simp
      from stop_keeps_chain[OF this] obtain p' where
        "getAsync (snd (stop s1)) i = Some (StartAwaitChain p')" by blast
      then have "keeps (snd (stop s1)) (setAsync i (StartAwaitStop (fst (stop s1))) (snd (stop s1)))"
        by (intro keeps_setAsync) simp_all
      with keeps_trans[OF k1 keeps_stop[of s1]] show ?thesis
        by (simp add: resume_StartAwaitChain[OF a] Rejected s1_def keeps_trans)
    qed (use t in \<open>simp_all add: resume_StartAwaitChain[OF a]\<close>)
  next
    case (StartAwaitStop q)
    note a = Some[unfolded StartAwaitStop]
    show ?thesis
      by (auto simp: resume_StartAwaitStop[OF a] keeps_refl keeps_setAsync a
            split: option.splits async.splits)
  next
    case (StopAwaitChain p)
    note a = Some[unfolded StopAwaitChain]
    have t: "keeps s (setAsync i (StopAwaitChain (fst (tick p s))) (snd (tick p s)))"
      by (rule keeps_tick[OF a]) simp_all
    show ?thesis
    proof (cases p)
      case Fulfilled
      have "keeps s (setAsync i Resolved (s\<lparr>diagnostics := Suc (diagnostics s)\<rparr>))"
        by (rule keeps_update[where i = i and a' = Resolved]) (simp_all add: setAsync_def a)
      then show ?thesis by (simp add: resume_StopAwaitChain[OF a] Fulfilled)
    next
      case (Rejected e)
      show ?thesis by (simp add: resume_StopAwaitChain[OF a] Rejected keeps_setAsync a)
    qed (use t in \<open>simp_all add: resume_StopAwaitChain[OF a]\<close>)
  next
    case (ShutdownAwaitStop code q)
    note a = Some[unfolded ShutdownAwaitStop]
    show ?thesis
      by (auto simp: resume_ShutdownAwaitStop[OF a] keeps_refl processExit_def logger_def
            intro!: keeps_fields split: option.splits async.splits)
  next
    case Resolved
    with Some show ?thesis by (simp add: resume_settled keeps_refl)
  next
    case (Failed e)
    with Some show ?thesis by (simp add: resume_settled[where e = e] keeps_refl)
  qed
qed

lemma keeps_settleHook: "keeps s (settleHook i r s)"
proof -
  have "keeps s (setAsync i a' (s\<lparr>trace := tr\<rparr>))"
    if "getAsync s i = Some a" "a \<noteq> Resolved" "\<forall>e. a \<noteq> Failed e" for a a' tr
    by (rule keeps_update[where i = i and a' = a']) (use that in \<open>simp_all add: setAsync_def\<close>)
  then show ?thesis
    by (auto simp: settleHook_def settleIn_def keeps_refl setAsync_same
          split: option.splits async.splits)
qed

lemma shutdown_unfold:
  "shutdown code s =
     (let s1 = (logger (Stdout [CHR 0x0A]) s)\<lparr>deadlines := deadlines s @ [code]\<rparr> in
      if appState s = STOPPING \<and> code = 0 then
        (if forceShutdown s then processExit code s1
         else (logger (Warn ''The application is yet to finishing the shutdown process. Repeat the command to force exit'') s1)
                \<lparr>forceShutdown := True\<rparr>)
      else if appState s \<noteq> STOPPED then
        snd (newAsync (ShutdownAwaitStop code (fst (stop s1))) (snd (stop s1)))
      else processExit code s1)"
  by (simp add: shutdown_def Let_def case_prod_beta logger_def)

lemma keeps_shutdown: "keeps s (shutdown code s)"
proof -
  define s1 where "s1 = (logger (Stdout [CHR 0x0A]) s)\<lparr>deadlines := deadlines s @ [code]\<rparr>"
  have k1: "keeps s s1" by (rule keeps_fields) (simp_all add: s1_def logger_def)
  have k2: "keeps (snd (stop s1)) (snd (newAsync (ShutdownAwaitStop code (fst (stop s1))) (snd (stop s1))))"
    by (rule keeps_append[where f = id and a = "ShutdownAwaitStop code (fst (stop s1))"])
      (simp_all add: newAsync_def)
  have k3: "keeps s (snd (newAsync (ShutdownAwaitStop code (fst (stop s1))) (snd (stop s1))))"
    by (rule keeps_trans[OF keeps_trans[OF k1 keeps_stop] k2])
  have k4: "keeps s (processExit code s1)"
    by (rule keeps_fields) (simp_all add: s1_def logger_def processExit_def)
  have k5: "keeps s ((logger l s1)\<lparr>forceShutdown := True\<rparr>)" for l
    by (rule keeps_fields) (simp_all add: s1_def logger_def)
  show ?thesis
    unfolding shutdown_unfold Let_def s1_def[symmetric]
    using k3 k4 k5 by auto
qed

lemma keeps_step: "keeps s (step e s)"
proof (cases "exited s = None")
  case False
  then show ?thesis by (auto simp: step_def keeps_refl)
next
  case True
  have "keeps s (fire e s)"
  proof (cases e)
    case (CallOnce l fn ord)
    then show ?thesis by (auto intro!: keeps_fields simp: once_def Let_def)
  next
    case DeadlineFires
    then show ?thesis
      by (auto intro!: keeps_fields simp: deadlineFires_def processExit_def logger_def
            split: list.splits)
  next
    case DiagnosticFires
    then show ?thesis by (auto intro!: keeps_fields simp: diagnosticFires_def logger_def)
  qed (simp_all add: keeps_start keeps_stop keeps_shutdown keeps_resume keeps_settleHook)
  with True show ?thesis by (simp add: step_def)
qed

lemma keeps_run: "keeps s (run es s)"
proof (induction es arbitrary: s)
  case Nil
  show ?case by (simp add: keeps_refl)
next
  case (Cons e es)
  from keeps_trans[OF keeps_step Cons] show ?case by simp
qed

section \<open>Start, stop and shutdown, call by call\<close>

lemma run_append: "run (es @ es') s = run es' (run es s)"
  by (induction es arbitrary: s) simp_all

lemma step_exited: "exited s \<noteq> None \<Longrightarrow> step e s = s"
  by (auto simp: step_def)

lemma run_exited: "exited s \<noteq> None \<Longrightarrow> run es s = s"
  by (induction es) (auto simp: step_exited)

text \<open>
  Claim C9. While the state is \<open>STOPPING\<close>, a graceful signal (code 0) does not call
  \<open>stop\<close> again: no invocation is created and the \<open>memo\<close> cell of \<open>stop\<close> is untouched.
  If no force-exit was requested yet, the routine logs the warning, records the request
  and does not exit; if one was requested, it exits the process with code 0 at once. So
  after one such signal, the next one that arrives while the state is still \<open>STOPPING\<close>
  (whatever happened in between) exits with code 0.
\<close>

theorem shutdown_double_signal:
  assumes "appState s = STOPPING" and "exited s = None"
  shows "promises (step (Signal 0) s) = promises s \<and>
         stopMemo (step (Signal 0) s) = stopMemo s \<and>
         (\<not> forceShutdown s \<longrightarrow>
            forceShutdown (step (Signal 0) s) \<and> exited (step (Signal 0) s) = None \<and>
            logs (step (Signal 0) s) = logs s @
              [Stdout [CHR 0x0A],
               Warn ''The application is yet to finishing the shutdown process. Repeat the command to force exit'']) \<and>
         (forceShutdown s \<longrightarrow> exited (step (Signal 0) s) = Some 0) \<and>
         (\<forall>es. appState (run es (step (Signal 0) s)) = STOPPING \<and>
               exited (run es (step (Signal 0) s)) = None \<longrightarrow>
               exited (step (Signal 0) (run es (step (Signal 0) s))) = Some 0)"
proof -
  have st: "step (Signal 0) t = shutdown 0 t" if "exited t = None" for t
    using that by (simp add: step_def)
  have ex: "exited (shutdown 0 t) = Some 0" if "appState t = STOPPING" "forceShutdown t" for t
    using that by (simp add: shutdown_unfold Let_def processExit_def)
  have one: "promises (shutdown 0 s) = promises s" "stopMemo (shutdown 0 s) = stopMemo s"
    "\<not> forceShutdown s \<longrightarrow>
       forceShutdown (shutdown 0 s) \<and> exited (shutdown 0 s) = None \<and>
       logs (shutdown 0 s) = logs s @
         [Stdout [CHR 0x0A],
          Warn ''The application is yet to finishing the shutdown process. Repeat the command to force exit'']"
    using assms by (simp_all add: shutdown_unfold Let_def processExit_def logger_def)
  have two: "exited (step (Signal 0) (run es (step (Signal 0) s))) = Some 0"
    if r: "appState (run es (step (Signal 0) s)) = STOPPING"
      "exited (run es (step (Signal 0) s)) = None" for es
  proof -
    have "forceShutdown (step (Signal 0) s)"
    proof (cases "forceShutdown s")
      case True
      with keeps_step[of s "Signal 0"] show ?thesis by (simp add: keeps_def)
    next
      case False
      with one(3) st[OF assms(2)] show ?thesis by simp
    qed
    with keeps_run[of "step (Signal 0) s" es]
    have "forceShutdown (run es (step (Signal 0) s))" by (simp add: keeps_def)
    from ex[OF r(1) this] st[OF r(2)] show ?thesis by simp
  qed
  from one two ex[OF assms(1)] st[OF assms(2)] show ?thesis by auto
qed

theorem shutdown_double_signal_witness:
  "appState (run stoppingRun makeApp) = STOPPING \<and>
   exited (run stoppingRun makeApp) = None \<and>
   \<not> forceShutdown (run stoppingRun makeApp) \<and>
   promises (step (Signal 0) (run stoppingRun makeApp)) = promises (run stoppingRun makeApp) \<and>
   forceShutdown (step (Signal 0) (run stoppingRun makeApp)) \<and>
   exited (step (Signal 0) (run stoppingRun makeApp)) = None \<and>
   exited (step (Signal 0) (step (Signal 0) (run stoppingRun makeApp))) = Some 0"
proof -
  have h: "appState (run stoppingRun makeApp) = STOPPING" "exited (run stoppingRun makeApp) = None"
    "\<not> forceShutdown (run stoppingRun makeApp)"
    by code_simp+
  have h2: "appState (run [] (step (Signal 0) (run stoppingRun makeApp))) = STOPPING"
    "exited (run [] (step (Signal 0) (run stoppingRun makeApp))) = None"
    by code_simp+
  from shutdown_double_signal[OF h(1,2)] h h2 show ?thesis
    by (metis run.simps(1))
qed

text \<open>
  Claim C5, as stated, fails: after \<open>start()\<close> has run to the release gate, \<open>stop()\<close> has
  completed and the first call of \<open>start\<close> has resolved, a second call of \<open>start\<close> returns
  a resolved promise, not an "already started" rejection.
\<close>

theorem start_twice_counterexample:
  "startMemo (run stoppedRun makeApp) = Some 0 \<and>
   getAsync (run stoppedRun makeApp) 0 = Some Resolved \<and>
   getAsync (snd (start (run stoppedRun makeApp))) (fst (start (run stoppedRun makeApp))) = Some Resolved"
  by code_simp

text \<open>
  Claim C5, amended. Once \<open>start\<close> has been called (in particular once that call has
  completed), another call of \<open>start\<close> raises no "already started" error: it returns the
  promise of the first call, which exists and is never rejected with that error, and it
  leaves the state as it is, so no hook is run again.
\<close>

theorem start_again_same_promise:
  assumes "startMemo (run es makeApp) = Some p"
  shows "start (run es makeApp) = (p, run es makeApp) \<and>
         getAsync (run es makeApp) p \<noteq> None \<and>
         getAsync (run es makeApp) p \<noteq> Some (Failed AlreadyStarted)"
  using start_memo[OF assms] consistentD(2)[OF consistent_reachable assms]
    consistentD(7)[OF consistent_reachable, of es p]
  by simp

theorem start_again_same_promise_witness:
  "startMemo (run stoppedRun makeApp) = Some 0 \<and>
   start (run stoppedRun makeApp) = (0, run stoppedRun makeApp) \<and>
   getAsync (run stoppedRun makeApp) 0 = Some Resolved"
proof -
  have h: "startMemo (run stoppedRun makeApp) = Some 0"
    "getAsync (run stoppedRun makeApp) 0 = Some Resolved"
    by code_simp+
  from start_again_same_promise[OF h(1)] h show ?thesis by simp
qed

text \<open>
  Claim C7. In every reachable state in which the state is \<open>IDLE\<close> (before \<open>start\<close> was
  called, or before the first job of its chain), the promise \<open>stop\<close> returns is rejected
  with "not running"; the call leaves the phase pointer, the state and the record of
  hook calls as they are, and no invocation of \<open>stop\<close> awaits a teardown chain.
\<close>

theorem stop_when_idle:
  assumes "appState (run es makeApp) = IDLE"
  shows "getAsync (snd (stop (run es makeApp))) (fst (stop (run es makeApp))) = Some (Failed NotRunning) \<and>
         current (snd (stop (run es makeApp))) = current (run es makeApp) \<and>
         appState (snd (stop (run es makeApp))) = IDLE \<and>
         trace (snd (stop (run es makeApp))) = trace (run es makeApp) \<and>
         (\<forall>i c. getAsync (snd (stop (run es makeApp))) i \<noteq> Some (StopAwaitChain c))"
proof -
  define s where "s = run es makeApp"
  have c: "consistent s" by (simp add: s_def consistent_reachable)
  have i: "appState s = IDLE" using assms by (simp add: s_def)
  have n: "getAsync s k \<noteq> Some (StopAwaitChain q)" for k q
    using consistentD(6)[OF c, of k q] i by auto
  have "getAsync (snd (stop s)) (fst (stop s)) = Some (Failed NotRunning) \<and>
         current (snd (stop s)) = current s \<and> appState (snd (stop s)) = IDLE \<and>
         trace (snd (stop s)) = trace s \<and>
         (\<forall>k q. getAsync (snd (stop s)) k \<noteq> Some (StopAwaitChain q))"
  proof (cases "stopMemo s")
    case (Some q)
    with consistentD(4)[OF c Some] i n show ?thesis by (simp add: stop_memo)
  next
    case None
    have s': "stop s = (length (promises s),
        s\<lparr>promises := promises s @ [Failed NotRunning], stopMemo := Some (length (promises s))\<rparr>)"
      using None i by (simp add: stop_def memo_def stopBody_idle)
    have "promises (snd (stop s)) = promises s @ [Failed NotRunning]" by (simp add: s')
    note g = getAsync_append[OF this]
    show ?thesis using i n by (simp add: g) (simp add: s')
  qed
  then show ?thesis by (simp add: s_def)
qed

theorem stop_when_idle_witness:
  "appState (run [CallStart] makeApp) = IDLE \<and>
   fst (stop (run [CallStart] makeApp)) = 1 \<and>
   getAsync (snd (stop (run [CallStart] makeApp))) 1 = Some (Failed NotRunning) \<and>
   current (snd (stop (run [CallStart] makeApp))) = Some RUNNING"
proof -
  have h: "appState (run [CallStart] makeApp) = IDLE" "fst (stop (run [CallStart] makeApp)) = 1"
    "current (run [CallStart] makeApp) = Some RUNNING"
    by code_simp+
  from stop_when_idle[OF h(1)] h show ?thesis by simp
qed

section \<open>No teardown after a rejected stop\<close>

lemma noTeardown_fields:
  assumes "noTeardown s" "promises s' = promises s" "trace s' = trace s" "current s' = current s"
  shows "noTeardown s'"
  using assms(1) unfolding noTeardown_def by (simp add: assms(3,4) getAsync_cong[OF assms(2)])

lemma noTeardown_update:
  assumes "noTeardown s" "promises s' = (promises s)[i := a']" "\<forall>p. a' \<noteq> StopAwaitChain p"
    "current s' = current s" "\<forall>ev \<in> set (trace s'). \<not> teardownCall ev"
  shows "noTeardown s'"
  using assms(1,3,5) unfolding noTeardown_def
  by (auto simp: assms(4) getAsync_update[OF assms(2)])

lemma noTeardown_append:
  assumes "noTeardown s" "promises s' = promises s @ [a']" "\<forall>p. a' \<noteq> StopAwaitChain p"
    "\<forall>l. current s' = Some l \<longrightarrow> \<not> teardownPhase l" "trace s' = trace s"
  shows "noTeardown s'"
  using assms(1,3,4) unfolding noTeardown_def
  by (auto simp: assms(5) getAsync_append[OF assms(2)])

lemma noTeardown_setAsync:
  "noTeardown s \<Longrightarrow> \<forall>p. a' \<noteq> StopAwaitChain p \<Longrightarrow> noTeardown (setAsync i a' s)"
  by (rule noTeardown_update[where i = i and a' = a'])
    (simp_all add: setAsync_def noTeardown_def)

lemma noTeardown_start: "consistent s \<Longrightarrow> noTeardown s \<Longrightarrow> noTeardown (snd (start s))"
proof (cases "startMemo s")
  case (Some p)
  assume "noTeardown s"
  with Some show ?thesis by (simp add: start_memo)
next
  case None
  assume c: "consistent s" and n: "noTeardown s"
  from consistentD(1)[OF c None] have i: "appState s = IDLE" "current s = None" by simp_all
  show ?thesis
    by (rule noTeardown_append[OF n, where a' = "StartAwaitChain (promiseChain
             [Status STARTING, Thunk BOOTING, Thunk BOOTED, Thunk READY, Thunk RUNNING, StartedFn])"])
      (simp_all add: start_def memo_def None startBody_fresh[OF i])
qed

lemma place_teardown: "teardownPhase l \<Longrightarrow> place (Hook l h) \<le> 9 \<Longrightarrow> False"
  by (cases l) simp_all

lemma noTeardown_tick:
  assumes c: "consistent s" and n: "noTeardown s" and a: "getAsync s i = Some (StartAwaitChain p)"
  shows "noTeardown (setAsync i (StartAwaitChain (fst (tick p s))) (snd (tick p s)))"
proof -
  have t: "tick p s = (fst (tick p s), snd (tick p s))" by simp
  note fr = tick_frame[OF t]
  from consistentD(5)[OF c a] have sc: "startChain (appState s) (trace s) p" by simp
  from tick_start_effect[OF t sc] n
  have tr: "\<forall>ev \<in> set (trace (snd (tick p s))). \<not> teardownCall ev"
    by (auto simp: noTeardown_def) (metis place_teardown)+
  show ?thesis
    by (rule noTeardown_update[OF n, where i = i and a' = "StartAwaitChain (fst (tick p s))"])
      (use fr tr in \<open>simp_all add: setAsync_def\<close>)
qed

text \<open>A step that does not run the body of \<open>stop\<close> starts no teardown.\<close>

lemma noTeardown_resume:
  assumes c: "consistent s" and n: "noTeardown s"
    and m: "stopMemo s \<noteq> None \<or> stopMemo (resume i s) = None"
  shows "noTeardown (resume i s)"
proof (cases "getAsync s i")
  case None
  with n show ?thesis by (simp add: resume_settled)
next
  case (Some a)
  show ?thesis
  proof (cases a)
    case (StartAwaitChain p)
    note a = Some[unfolded StartAwaitChain]
    show ?thesis
    proof (cases p)
      case Fulfilled
      show ?thesis by (simp add: resume_StartAwaitChain[OF a] Fulfilled noTeardown_setAsync n)
    next
      case (Rejected e)
      have "stopMemo (resume i s) = Some (fst (stop (logger (ErrorObj e) s)))"
        by (simp add: resume_StartAwaitChain[OF a] Rejected setAsync_def stop_sets_memo)
      with m obtain q where "stopMemo s = Some q" by auto
      then have "stopMemo (logger (ErrorObj e) s) = Some q" by (simp add: logger_def)
      from stop_memo[OF this]
      have st: "stop (logger (ErrorObj e) s) = (q, logger (ErrorObj e) s)" .
      have "noTeardown (logger (ErrorObj e) s)"
        by (rule noTeardown_fields[OF n]) (simp_all add: logger_def)
      then show ?thesis
        by (simp add: resume_StartAwaitChain[OF a] Rejected st noTeardown_setAsync)
    qed (use noTeardown_tick[OF c n a] in \<open>simp_all add: resume_StartAwaitChain[OF a]\<close>)
  next
    case (StartAwaitStop r)
    note a = Some[unfolded StartAwaitStop]
    show ?thesis
      by (auto simp: resume_StartAwaitStop[OF a] n noTeardown_setAsync
            split: option.splits async.splits)
  next
    case (StopAwaitChain p)
    with Some n show ?thesis by (simp add: noTeardown_def)
  next
    case (ShutdownAwaitStop code r)
    note a = Some[unfolded ShutdownAwaitStop]
    have "noTeardown (processExit code s)" "noTeardown (processExit code (logger l s))" for l
      by (rule noTeardown_fields[OF n]; simp add: processExit_def logger_def)+
    then show ?thesis
      by (auto simp: resume_ShutdownAwaitStop[OF a] n split: option.splits async.splits)
  next
    case Resolved
    with Some n show ?thesis by (simp add: resume_settled)
  next
    case (Failed e)
    with Some n show ?thesis by (simp add: resume_settled[where e = e])
  qed
qed

lemma noTeardown_settleHook:
  assumes n: "noTeardown s"
  shows "noTeardown (settleHook i r s)"
proof -
  have "noTeardown (setAsync i (StartAwaitChain p') (s\<lparr>trace := trace s @ [Settled l h r]\<rparr>))"
    for p' l h
    by (rule noTeardown_update[OF n, where i = i and a' = "StartAwaitChain p'"])
      (use n in \<open>simp_all add: setAsync_def noTeardown_def\<close>)
  with n show ?thesis
    by (auto simp: settleHook_def settleIn_def setAsync_same noTeardown_def[of s]
          split: option.splits async.splits)
qed

lemma noTeardown_shutdown:
  assumes n: "noTeardown s"
    and m: "stopMemo s \<noteq> None \<or> stopMemo (shutdown code s) = None"
  shows "noTeardown (shutdown code s)"
proof -
  define s1 where "s1 = (logger (Stdout [CHR 0x0A]) s)\<lparr>deadlines := deadlines s @ [code]\<rparr>"
  have n1: "noTeardown s1" by (rule noTeardown_fields[OF n]) (simp_all add: s1_def logger_def)
  have k4: "noTeardown (processExit code s1)"
    by (rule noTeardown_fields[OF n1]) (simp_all add: processExit_def)
  have k5: "noTeardown ((logger l s1)\<lparr>forceShutdown := True\<rparr>)" for l
    by (rule noTeardown_fields[OF n1]) (simp_all add: logger_def)
  have k2: "noTeardown (snd (newAsync (ShutdownAwaitStop code (fst (stop s1))) (snd (stop s1))))"
    if b: "shutdown code s = snd (newAsync (ShutdownAwaitStop code (fst (stop s1))) (snd (stop s1)))"
  proof -
    have "stopMemo (shutdown code s) = Some (fst (stop s1))"
      by (simp add: b newAsync_def stop_sets_memo)
    with m obtain q where "stopMemo s = Some q" by auto
    then have "stopMemo s1 = Some q" by (simp add: s1_def logger_def)
    from stop_memo[OF this] have st: "stop s1 = (q, s1)" .
    show ?thesis
      unfolding st fst_conv snd_conv
      by (rule noTeardown_append[OF n1, where a' = "ShutdownAwaitStop code q"])
        (use n1 in \<open>simp_all add: newAsync_def noTeardown_def\<close>)
  qed
  have u: "shutdown code s =
      (if appState s = STOPPING \<and> code = 0 then
        (if forceShutdown s then processExit code s1
         else (logger (Warn ''The application is yet to finishing the shutdown process. Repeat the command to force exit'') s1)
                \<lparr>forceShutdown := True\<rparr>)
      else if appState s \<noteq> STOPPED then
        snd (newAsync (ShutdownAwaitStop code (fst (stop s1))) (snd (stop s1)))
      else processExit code s1)"
    by (simp add: shutdown_unfold Let_def s1_def)
  show ?thesis
    using k2 k4 k5 by (auto simp: u)
qed

lemma noTeardown_step:
  assumes c: "consistent s" and n: "noTeardown s"
    and m: "stopMemo s \<noteq> None \<or> stopMemo (step e s) = None"
  shows "noTeardown (step e s)"
proof (cases "exited s = None")
  case False
  with n show ?thesis by (auto simp: step_def)
next
  case True
  then have f: "step e s = fire e s" by (simp add: step_def)
  have "noTeardown (fire e s)"
  proof (cases e)
    case CallStart
    then show ?thesis by (simp add: noTeardown_start c n)
  next
    case CallStop
    with m f stop_sets_memo[of s] obtain q where "stopMemo s = Some q" by auto
    with CallStop n show ?thesis by (simp add: stop_memo)
  next
    case (CallOnce l fn ord)
    then show ?thesis by (auto intro!: noTeardown_fields[OF n] simp: once_def Let_def)
  next
    case (Signal code)
    with m f show ?thesis by (simp add: noTeardown_shutdown n)
  next
    case (Resume i)
    with m f show ?thesis by (simp add: noTeardown_resume c n)
  next
    case (SettleHook i r)
    then show ?thesis by (simp add: noTeardown_settleHook n)
  next
    case DeadlineFires
    then show ?thesis
      by (auto intro!: noTeardown_fields[OF n] simp: deadlineFires_def processExit_def logger_def
            split: list.splits)
  next
    case DiagnosticFires
    then show ?thesis by (auto intro!: noTeardown_fields[OF n] simp: diagnosticFires_def logger_def)
  qed
  with f show ?thesis by simp
qed

lemma noTeardown_run:
  "consistent s \<Longrightarrow> noTeardown s \<Longrightarrow> stopMemo s = Some q \<Longrightarrow> noTeardown (run es s)"
proof (induction es arbitrary: s)
  case Nil
  then show ?case by simp
next
  case (Cons e es)
  from keeps_step[of s e] Cons.prems(3) have "stopMemo (step e s) = Some q"
    by (simp add: keeps_def)
  with Cons show ?case by (simp add: consistent_step noTeardown_step)
qed

lemma run_snoc: "run (es @ [e]) s = step e (run es s)"
  by (induction es arbitrary: s) simp_all

lemma noTeardown_reachable:
  "stopMemo (run es makeApp) = None \<Longrightarrow> noTeardown (run es makeApp)"
proof (induction es rule: rev_induct)
  case Nil
  show ?case by (simp add: noTeardown_def makeApp_def getAsync_def)
next
  case (snoc e es)
  define s where "s = run es makeApp"
  from snoc.prems have p: "stopMemo (step e s) = None" by (simp add: run_snoc s_def)
  with keeps_step[of s e] have "stopMemo s = None" by (cases "stopMemo s") (auto simp: keeps_def)
  with snoc.IH have "noTeardown s" by (simp add: s_def)
  from noTeardown_step[OF _ this, of e] p show ?case
    by (simp add: run_snoc s_def consistent_reachable)
qed

text \<open>
  Claim C10. If the first call of \<open>stop\<close> ever made finds the state \<open>IDLE\<close>, the promise
  it returns is rejected with "not running" and stays in the \<open>memo\<close> cell: after any
  further events, a call of \<open>stop\<close> (the public one, the compensating one in the catch
  block of \<open>start\<close>, the one of the \<open>shutdown\<close> routine: all call this function) returns that
  same promise, still rejected with "not running", and changes nothing; and no teardown
  ever happens: \<open>stop\<close> awaits no chain, no hook of a teardown phase is called, the phase
  pointer never reaches a teardown phase.
\<close>

theorem stop_rejection_is_cached:
  assumes "stopMemo (run es1 makeApp) = None" and "appState (run es1 makeApp) = IDLE"
  shows "getAsync (snd (stop (run es1 makeApp))) (fst (stop (run es1 makeApp))) = Some (Failed NotRunning) \<and>
         stop (run es2 (snd (stop (run es1 makeApp)))) =
           (fst (stop (run es1 makeApp)), run es2 (snd (stop (run es1 makeApp)))) \<and>
         getAsync (run es2 (snd (stop (run es1 makeApp)))) (fst (stop (run es1 makeApp))) =
           Some (Failed NotRunning) \<and>
         noTeardown (run es2 (snd (stop (run es1 makeApp))))"
proof -
  define s1 where "s1 = run es1 makeApp"
  define q where "q = fst (stop s1)"
  define s2 where "s2 = snd (stop s1)"
  have c1: "consistent s1" by (simp add: s1_def consistent_reachable)
  have n1: "noTeardown s1" using assms(1) by (simp add: s1_def noTeardown_reachable)
  have i: "appState s1 = IDLE" and m: "stopMemo s1 = None" using assms by (simp_all add: s1_def)
  have st: "stop s1 = (length (promises s1),
      s1\<lparr>promises := promises s1 @ [Failed NotRunning], stopMemo := Some (length (promises s1))\<rparr>)"
    using m i by (simp add: stop_def memo_def stopBody_idle)
  have c2: "consistent s2" unfolding s2_def by (rule consistent_stop[OF c1])
  have m2: "stopMemo s2 = Some q" by (simp add: s2_def q_def stop_sets_memo)
  have "promises s2 = promises s1 @ [Failed NotRunning]" by (simp add: s2_def st)
  from getAsync_append[OF this, of q] have g2: "getAsync s2 q = Some (Failed NotRunning)"
    by (simp add: q_def st)
  have n2: "noTeardown s2"
    by (rule noTeardown_append[OF n1, where a' = "Failed NotRunning"])
      (use n1 in \<open>simp_all add: s2_def st noTeardown_def\<close>)
  from keeps_run[of s2 es2] m2 g2
  have m3: "stopMemo (run es2 s2) = Some q" and g3: "getAsync (run es2 s2) q = Some (Failed NotRunning)"
    by (simp_all add: keeps_def)
  from g2 stop_memo[OF m3] g3 noTeardown_run[OF c2 n2 m2, of es2] show ?thesis
    by (simp add: s1_def[symmetric] s2_def[symmetric] q_def[symmetric])
qed

theorem stop_rejection_is_cached_witness:
  "stopMemo (run startOnlyRun makeApp) = None \<and>
   appState (run startOnlyRun makeApp) = IDLE \<and>
   fst (stop (run startOnlyRun makeApp)) = 1 \<and>
   getAsync (run failedBootRun (snd (stop (run startOnlyRun makeApp)))) 1 = Some (Failed NotRunning) \<and>
   getAsync (run failedBootRun (snd (stop (run startOnlyRun makeApp)))) 0 = Some (Failed NotRunning) \<and>
   trace (run failedBootRun (snd (stop (run startOnlyRun makeApp)))) =
     [Called BOOTING 1, Settled BOOTING 1 (Some 7)] \<and>
   exited (run failedBootRun (snd (stop (run startOnlyRun makeApp)))) = Some 0 \<and>
   noTeardown (run failedBootRun (snd (stop (run startOnlyRun makeApp))))"
proof -
  have h: "stopMemo (run startOnlyRun makeApp) = None"
    "appState (run startOnlyRun makeApp) = IDLE"
    "fst (stop (run startOnlyRun makeApp)) = 1"
    "getAsync (run failedBootRun (snd (stop (run startOnlyRun makeApp)))) 0 = Some (Failed NotRunning)"
    "trace (run failedBootRun (snd (stop (run startOnlyRun makeApp)))) =
       [Called BOOTING 1, Settled BOOTING 1 (Some 7)]"
    "exited (run failedBootRun (snd (stop (run startOnlyRun makeApp)))) = Some 0"
    by code_simp+
  from stop_rejection_is_cached[OF h(1,2), of failedBootRun] h show ?thesis by simp
qed

section \<open>A chain runs its hooks one at a time\<close>

lemma tick_rejected:
  "core p = Rejected e \<Longrightarrow> tick p s = (p', s') \<Longrightarrow>
     s' = s \<and> core p' = Rejected e \<and> depth p' = depth p - 1"
proof (induction p arbitrary: p')
  case (Then chain fn)
  then show ?case by (cases chain) (auto split: prod.splits)
next
  case (Follow q)
  then show ?case by (cases q) (auto split: prod.splits)
qed auto

lemma depth_0_core: "depth p = 0 \<Longrightarrow> core p = p"
  by (cases p) auto

text \<open>A rejected chain is rejected as a whole after as many jobs as it is deep.\<close>

lemma rejected_chain_settles:
  "core p = Rejected e \<Longrightarrow> runChain (replicate (depth p) Job) (p, s) = (Rejected e, s)"
proof (induction "depth p" arbitrary: p)
  case 0
  then show ?case using depth_0_core[of p] by simp
next
  case (Suc n)
  obtain p' s' where t: "tick p s = (p', s')" by (cases "tick p s")
  from tick_rejected[OF Suc.prems t] Suc.hyps(2)
  have "s' = s" "core p' = Rejected e" "n = depth p'" by simp_all
  with Suc.hyps(1)[of p'] t Suc.hyps(2)[symmetric] show ?case by simp
qed

lemma failure_snoc_Settled: "failure (evs @ [Settled l h r]) = r"
  by (induction evs rule: failure.induct) auto

lemma failure_snoc_Called: "failure (evs @ [Called l h]) = None"
  by (induction evs rule: failure.induct) auto

lemma failure_allFulfilled: "failure (allFulfilled l hs) = None"
proof (cases hs rule: rev_cases)
  case Nil
  then show ?thesis by (simp add: allFulfilled_def)
next
  case (snoc hs' h)
  have "allFulfilled l hs = (allFulfilled l hs' @ [Called l h]) @ [Settled l h None]"
    by (simp add: allFulfilled_def snoc)
  then show ?thesis by (simp only: failure_snoc_Settled)
qed

lemma allFulfilled_Cons: "allFulfilled l (h # hs) = Called l h # Settled l h None # allFulfilled l hs"
  by (simp add: allFulfilled_def)

lemma allFulfilled_take_Suc:
  "k < length hs \<Longrightarrow>
     allFulfilled l (take (Suc k) hs) = allFulfilled l (take k hs) @ [Called l (hs ! k), Settled l (hs ! k) None]"
  by (simp add: allFulfilled_def take_Suc_conv_app_nth)

lemma oneAtATime_prefix:
  "k \<le> length hs \<Longrightarrow> oneAtATime l hs (allFulfilled l (take k hs))"
proof (induction hs arbitrary: k)
  case Nil
  then show ?case by (simp add: allFulfilled_def)
next
  case (Cons h hs)
  then show ?case by (cases k) (simp_all add: allFulfilled_Cons, simp add: allFulfilled_def)
qed

lemma oneAtATime_called:
  "k < length hs \<Longrightarrow> oneAtATime l hs (allFulfilled l (take k hs) @ [Called l (hs ! k)])"
proof (induction hs arbitrary: k)
  case Nil
  then show ?case by simp
next
  case (Cons h hs)
  then show ?case by (cases k) (simp_all add: allFulfilled_Cons, simp add: allFulfilled_def)
qed

lemma oneAtATime_failed:
  "k < length hs \<Longrightarrow>
     oneAtATime l hs (allFulfilled l (take k hs) @ [Called l (hs ! k), Settled l (hs ! k) (Some n)])"
proof (induction hs arbitrary: k)
  case Nil
  then show ?case by simp
next
  case (Cons h hs)
  then show ?case by (cases k) (simp_all add: allFulfilled_Cons, simp add: allFulfilled_def)
qed

lemma hooksRun_start: "hooksRun l hs [] (promiseChain (map (Hook l) hs))"
  unfolding hooksRun_def
  by (rule exI[where x = 0]) (simp add: allFulfilled_def core_promiseChain todo_promiseChain)

lemma hooksRun_tick:
  assumes h: "hooksRun l hs tr p" and t: "tick p s = (p', s')"
  shows "\<exists>tr'. trace s' = trace s @ tr' \<and> hooksRun l hs (tr @ tr') p'"
proof -
  from h obtain k where k: "k \<le> length hs"
    and c: "(tr = allFulfilled l (take k hs) \<and> core p = Fulfilled \<and> todo p = map (Hook l) (drop k hs))
         \<or> (k < length hs \<and> tr = allFulfilled l (take k hs) @ [Called l (hs ! k)] \<and>
              core p = HookPending l (hs ! k) \<and> todo p = map (Hook l) (drop (Suc k) hs))
         \<or> (k < length hs \<and>
              (\<exists>n. tr = allFulfilled l (take k hs) @ [Called l (hs ! k), Settled l (hs ! k) (Some n)] \<and>
                   core p = Rejected (HookError n)))"
    unfolding hooksRun_def by blast
  from tick_cases[OF t] show ?thesis
  proof (elim disjE conjE exE)
    fix t1 ts q
    assume a: "core p = Fulfilled" "todo p = t1 # ts" "call t1 s = (q, s')"
      "todo p' = todo q @ ts" "core p' = core q"
    with c have tr: "tr = allFulfilled l (take k hs)" and td: "t1 # ts = map (Hook l) (drop k hs)"
      by auto
    from td have kl: "k < length hs" by (cases "k < length hs") auto
    from td kl have t1: "t1 = Hook l (hs ! k)" and ts: "ts = map (Hook l) (drop (Suc k) hs)"
      by (simp_all add: Cons_nth_drop_Suc[symmetric])
    from a(3) t1 have q: "q = HookPending l (hs ! k)" and s': "trace s' = trace s @ [Called l (hs ! k)]"
      by auto
    have "hooksRun l hs (tr @ [Called l (hs ! k)]) p'"
      unfolding hooksRun_def using k kl tr ts q a(4,5) by (intro exI[where x = k]) simp
    with s' show ?thesis by blast
  next
    assume a: "s' = s" "core p' = core p" "todo p' = todo p"
    with h have "hooksRun l hs (tr @ []) p'" by (simp add: hooksRun_def)
    with a(1) show ?thesis by (intro exI[where x = "[]"]) simp
  next
    fix e t1
    assume a: "s' = s" "core p' = core p" "core p = Rejected e" "todo p = t1 # todo p'"
    with c k have "hooksRun l hs (tr @ []) p'"
      unfolding hooksRun_def by (intro exI[where x = k]) auto
    with a(1) show ?thesis by (intro exI[where x = "[]"]) simp
  qed
qed

lemma hooksRun_settleIn:
  assumes h: "hooksRun l hs tr p" and t: "settleIn r p s = (p', s')"
  shows "\<exists>tr'. trace s' = trace s @ tr' \<and> hooksRun l hs (tr @ tr') p'"
proof (cases "inFlight p")
  case None
  with t have "p' = p" "s' = s" by (simp_all add: settleIn_def)
  with h show ?thesis by (intro exI[where x = "[]"]) simp
next
  case (Some lh)
  obtain l' h' where lh: "lh = (l', h')" by (cases lh)
  from Some lh have cp: "core p = HookPending l' h'" by (simp add: inFlight_core)
  from t Some lh have p': "p' = settle r p" and s': "trace s' = trace s @ [Settled l' h' r]"
    by (auto simp: settleIn_def)
  from h cp obtain k where k: "k < length hs" "tr = allFulfilled l (take k hs) @ [Called l (hs ! k)]"
      "l' = l" "h' = hs ! k" "todo p = map (Hook l) (drop (Suc k) hs)"
    unfolding hooksRun_def by auto
  have "hooksRun l hs (tr @ [Settled l' h' r]) p'"
  proof (cases r)
    case None
    with core_settle[OF cp, of r] have "core p' = Fulfilled" by (simp add: p')
    then show ?thesis
      unfolding hooksRun_def using k None
      by (intro exI[where x = "Suc k"]) (simp add: allFulfilled_take_Suc p' todo_settle)
  next
    case (Some n)
    with core_settle[OF cp, of r] have "core p' = Rejected (HookError n)" by (simp add: p')
    then show ?thesis
      unfolding hooksRun_def using k Some
      by (intro exI[where x = k]) simp
  qed
  with s' show ?thesis by blast
qed

lemma hooksRun_run:
  "hooksRun l hs tr p \<Longrightarrow> trace s = t0 @ tr \<Longrightarrow> runChain evs (p, s) = (p', s') \<Longrightarrow>
     \<exists>tr'. trace s' = t0 @ tr' \<and> hooksRun l hs tr' p'"
proof (induction evs arbitrary: p s tr)
  case Nil
  then show ?case by auto
next
  case (Cons ev evs)
  obtain p1 s1 where c: "chainStep ev (p, s) = (p1, s1)" by (cases "chainStep ev (p, s)")
  have "\<exists>tr'. trace s1 = trace s @ tr' \<and> hooksRun l hs (tr @ tr') p1"
  proof (cases ev)
    case Job
    with c have "tick p s = (p1, s1)" by simp
    from hooksRun_tick[OF Cons.prems(1) this] show ?thesis .
  next
    case (Settles r)
    with c have "settleIn r p s = (p1, s1)" by simp
    from hooksRun_settleIn[OF Cons.prems(1) this] show ?thesis .
  qed
  then obtain tr1 where t1: "trace s1 = trace s @ tr1" "hooksRun l hs (tr @ tr1) p1" by blast
  from t1(1) Cons.prems(2) have "trace s1 = t0 @ (tr @ tr1)" by simp
  from Cons.IH[OF t1(2) this] Cons.prems(3) c show ?case by simp
qed

lemma hooksRun_oneAtATime: "hooksRun l hs tr p \<Longrightarrow> oneAtATime l hs tr"
  unfolding hooksRun_def
  by (auto simp: oneAtATime_prefix oneAtATime_called oneAtATime_failed)

lemma hooksRun_Fulfilled: "hooksRun l hs tr Fulfilled \<Longrightarrow> tr = allFulfilled l hs"
  unfolding hooksRun_def by auto

lemma hooksRun_Rejected:
  "hooksRun l hs tr (Rejected e) \<Longrightarrow> \<exists>n. e = HookError n \<and> failure tr = Some n"
proof -
  assume "hooksRun l hs tr (Rejected e)"
  then obtain k n where "tr = (allFulfilled l (take k hs) @ [Called l (hs ! k)]) @ [Settled l (hs ! k) (Some n)]"
    "e = HookError n"
    unfolding hooksRun_def by auto
  then show ?thesis by (simp only: failure_snoc_Settled) simp
qed

lemma hooksRun_failure:
  assumes "hooksRun l hs tr p" and "failure tr = Some n"
  shows "core p = Rejected (HookError n)"
proof -
  from assms(1) obtain k where
    c: "(tr = allFulfilled l (take k hs) \<and> core p = Fulfilled \<and> todo p = map (Hook l) (drop k hs))
         \<or> (k < length hs \<and> tr = allFulfilled l (take k hs) @ [Called l (hs ! k)] \<and>
              core p = HookPending l (hs ! k) \<and> todo p = map (Hook l) (drop (Suc k) hs))
         \<or> (k < length hs \<and>
              (\<exists>m. tr = (allFulfilled l (take k hs) @ [Called l (hs ! k)]) @ [Settled l (hs ! k) (Some m)] \<and>
                   core p = Rejected (HookError m)))"
    unfolding hooksRun_def by auto
  then show ?thesis
  proof (elim disjE conjE exE)
    assume "tr = allFulfilled l (take k hs)"
    with assms(2) show ?thesis by (simp add: failure_allFulfilled)
  next
    assume "tr = allFulfilled l (take k hs) @ [Called l (hs ! k)]"
    with assms(2) show ?thesis by (simp add: failure_snoc_Called)
  next
    fix m
    assume "tr = (allFulfilled l (take k hs) @ [Called l (hs ! k)]) @ [Settled l (hs ! k) (Some m)]"
      "core p = Rejected (HookError m)"
    with assms(2) show ?thesis by (simp only: failure_snoc_Settled) simp
  qed
qed

section \<open>The run state along an execution\<close>

lemma orderly_fields:
  assumes "orderly s" "promises s' = promises s" "appState s' = appState s"
  shows "orderly s'"
  using assms(1) unfolding orderly_def startPending_def stopRunning_def
  by (simp add: assms(3) getAsync_cong[OF assms(2)])

lemma orderly_update:
  assumes "orderly s" "promises s' = (promises s)[i := a']"
    "\<forall>p. a' \<noteq> StartAwaitChain p" "\<forall>p. a' \<noteq> StopAwaitChain p" "appState s' = appState s"
  shows "orderly s'"
proof -
  have 1: "startPending s' \<Longrightarrow> startPending s"
    unfolding startPending_def using assms(3)
    by (auto simp: getAsync_update[OF assms(2)] split: if_splits)
  have 2: "stopRunning s' \<Longrightarrow> stopRunning s"
    unfolding stopRunning_def using assms(4)
    by (auto simp: getAsync_update[OF assms(2)] split: if_splits)
  from assms(1) 1 2 show ?thesis unfolding orderly_def by (auto simp: assms(5))
qed

lemma orderly_append:
  assumes "orderly s" "promises s' = promises s @ [a']"
    "\<forall>p. a' \<noteq> StartAwaitChain p" "\<forall>p. a' \<noteq> StopAwaitChain p" "appState s' = appState s"
  shows "orderly s'"
proof -
  have 1: "startPending s' \<Longrightarrow> startPending s"
    unfolding startPending_def using assms(3)
    by (auto simp: getAsync_append[OF assms(2)] split: if_splits)
  have 2: "stopRunning s' \<Longrightarrow> stopRunning s"
    unfolding stopRunning_def using assms(4)
    by (auto simp: getAsync_append[OF assms(2)] split: if_splits)
  from assms(1) 1 2 show ?thesis unfolding orderly_def by (auto simp: assms(5))
qed

lemma orderly_setAsync:
  "orderly s \<Longrightarrow> \<forall>p. a' \<noteq> StartAwaitChain p \<Longrightarrow> \<forall>p. a' \<noteq> StopAwaitChain p \<Longrightarrow>
     orderly (setAsync i a' s)"
  by (rule orderly_update[where i = i and a' = a']) (simp_all add: setAsync_def)

lemma start_appState: "consistent s \<Longrightarrow> appState (snd (start s)) = appState s"
proof (cases "startMemo s")
  case (Some p)
  then show ?thesis by (simp add: start_memo)
next
  case None
  assume c: "consistent s"
  from consistentD(1)[OF c None] have i: "appState s = IDLE" "current s = None" by simp_all
  show ?thesis by (simp add: start_def memo_def None startBody_fresh[OF i])
qed

lemma orderly_start: "consistent s \<Longrightarrow> orderly s \<Longrightarrow> orderly (snd (start s))"
proof (cases "startMemo s")
  case (Some p)
  assume "orderly s"
  with Some show ?thesis by (simp add: start_memo)
next
  case None
  assume c: "consistent s" and n: "orderly s"
  from consistentD(1)[OF c None] have i: "appState s = IDLE" "current s = None" by simp_all
  define s' where "s' = snd (start s)"
  have p: "promises s' = promises s @ [StartAwaitChain (promiseChain
             [Status STARTING, Thunk BOOTING, Thunk BOOTED, Thunk READY, Thunk RUNNING, StartedFn])]"
    and a: "appState s' = IDLE"
    by (simp_all add: s'_def start_def memo_def None startBody_fresh[OF i] i)
  have "\<not> stopRunning s'"
    unfolding stopRunning_def using consistentD(6)[OF c] i(1)
    by (auto simp: getAsync_append[OF p] split: if_splits)
  with a show ?thesis unfolding orderly_def s'_def by simp
qed

lemma stop_appState: "appState (snd (stop s)) = appState s"
proof (cases "stopMemo s")
  case (Some q)
  then show ?thesis by (simp add: stop_memo)
next
  case None
  have s': "snd (stop s) = (snd (stopBody s))\<lparr>stopMemo := Some (fst (stopBody s))\<rparr>"
    using None by (simp add: stop_def memo_def split: prod.splits)
  show ?thesis
  proof (cases "appState s = IDLE")
    case True
    then show ?thesis by (simp add: s' stopBody_idle)
  next
    case False
    from stopBody_fields[OF False] show ?thesis by (auto simp: s')
  qed
qed

text \<open>A call of \<open>stop\<close> keeps the order when \<open>started\<close> is no longer to be called, or in state \<open>IDLE\<close>.\<close>

lemma orderly_stop:
  assumes n: "orderly s" and m: "\<not> startPending s \<or> appState s = IDLE"
  shows "orderly (snd (stop s))"
proof (cases "stopMemo s")
  case (Some q)
  with n show ?thesis by (simp add: stop_memo)
next
  case None
  have s': "snd (stop s) = (snd (stopBody s))\<lparr>stopMemo := Some (fst (stopBody s))\<rparr>"
    using None by (simp add: stop_def memo_def split: prod.splits)
  show ?thesis
  proof (cases "appState s = IDLE")
    case True
    show ?thesis
      by (rule orderly_append[OF n, where a' = "Failed NotRunning"])
        (simp_all add: s' stopBody_idle True)
  next
    case False
    with m have np: "\<not> startPending s" by simp
    from stopBody_fields[OF False] obtain f ts where
      p: "promises (snd (stop s)) = map f (promises s) @ [StopAwaitChain (promiseChain ts)]"
      and ff: "f = id \<or> (\<exists>g. f = resolveIn g)"
      by (auto simp: s')
    have "startPending (snd (stop s)) \<Longrightarrow> startPending s"
      unfolding startPending_def using ff
      by (auto simp: getAsync_map_append[OF p] resolveIn_StartAwaitChain ahead_resolve
            split: if_splits) blast+
    with np show ?thesis unfolding orderly_def by blast
  qed
qed

lemma StartedFn_once: "sorted_wrt before (StartedFn # ts) \<Longrightarrow> StartedFn \<notin> set ts"
  by (auto simp: before_def)

lemma place_Status_start: "place (Status a) \<le> 9 \<Longrightarrow> a = STARTING"
  by (cases a) simp_all

lemma place_Status_stop: "10 \<le> place (Status a) \<Longrightarrow> place (Status a) \<le> 15 \<Longrightarrow> a = STOPPING \<or> a = STOPPED"
  by (cases a) simp_all

lemma tick_start_rank:
  assumes t: "tick p s = (p', s')" and c: "startChain (appState s) (trace s) p"
    and o: "StartedFn \<in> set (ahead p) \<longrightarrow> appState s = IDLE \<or> appState s = STARTING"
  shows "stateRank (appState s) \<le> stateRank (appState s') \<and>
         (StartedFn \<in> set (ahead p') \<longrightarrow>
            StartedFn \<in> set (ahead p) \<and> (appState s' = IDLE \<or> appState s' = STARTING))"
  using tick_ahead[OF t]
proof (elim disjE conjE exE, goal_cases)
  case (1 a ts)
  with c have "a = STARTING" "appState s = IDLE"
    by (auto simp: startChain_def dest: place_Status_start)
  with 1 show ?case by simp
next
  case (2 l ts)
  with o show ?case by auto
next
  case (3 ts)
  with c have "StartedFn \<notin> set ts" by (auto simp: startChain_def before_def)
  with 3 o show ?case by auto
next
  case (4 l h ts)
  with o show ?case by auto
next
  case 5
  with o show ?case by auto
next
  case (6 t1)
  with o show ?case by auto
qed

lemma tick_stop_rank:
  assumes t: "tick p s = (p', s')" and c: "stopChain (appState s) p"
  shows "stateRank (appState s) \<le> stateRank (appState s')"
  using tick_ahead[OF t]
proof (elim disjE conjE exE, goal_cases)
  case (1 a ts)
  with c have "a = STOPPING \<or> a = STOPPED" "appState s \<noteq> STOPPED"
    by (auto simp: stopChain_def dest: place_Status_stop)
  with 1 show ?case by (cases "appState s") auto
next
  case (3 ts)
  with c show ?case by (auto simp: stopChain_def)
qed auto

lemma start_chain_unique:
  assumes c: "consistent s" and a: "getAsync s i = Some (StartAwaitChain p)"
    and b: "getAsync s j = Some (StartAwaitChain q)"
  shows "j = i \<and> q = p"
  using consistentD(5)[OF c a] consistentD(5)[OF c b] a b by simp

lemma orderly_tick_start:
  assumes c: "consistent s" and n: "orderly s" and a: "getAsync s i = Some (StartAwaitChain p)"
  shows "orderly (setAsync i (StartAwaitChain (fst (tick p s))) (snd (tick p s))) \<and>
         stateRank (appState s) \<le> stateRank (appState (snd (tick p s)))"
proof -
  define s' where "s' = setAsync i (StartAwaitChain (fst (tick p s))) (snd (tick p s))"
  have t: "tick p s = (fst (tick p s), snd (tick p s))" by simp
  note fr = tick_frame[OF t]
  from consistentD(5)[OF c a] have sc: "startChain (appState s) (trace s) p" by simp
  have o: "StartedFn \<in> set (ahead p) \<longrightarrow> appState s = IDLE \<or> appState s = STARTING"
    using n a unfolding orderly_def startPending_def by blast
  note r = tick_start_rank[OF t sc o]
  have p: "promises s' = (promises s)[i := StartAwaitChain (fst (tick p s))]"
    and as: "appState s' = appState (snd (tick p s))"
    using fr by (simp_all add: s'_def setAsync_def)
  have "orderly s'"
  proof -
    have 1: "(appState s' = IDLE \<or> appState s' = STARTING) \<and> startPending s" if "startPending s'"
    proof -
      from that obtain j q where j: "getAsync s' j = Some (StartAwaitChain q)" "StartedFn \<in> set (ahead q)"
        unfolding startPending_def by blast
      show ?thesis
      proof (cases "j = i")
        case True
        with j getAsync_Some_less[OF a] have "q = fst (tick p s)"
          by (simp add: getAsync_update[OF p])
        with j(2) r a show ?thesis unfolding startPending_def as by blast
      next
        case False
        with j have "getAsync s j = Some (StartAwaitChain q)" by (simp add: getAsync_update[OF p])
        from start_chain_unique[OF c a this] False show ?thesis by simp
      qed
    qed
    have 2: "stopRunning s' \<Longrightarrow> stopRunning s"
      unfolding stopRunning_def by (auto simp: getAsync_update[OF p] split: if_splits)
    from n 1 2 show ?thesis unfolding orderly_def by blast
  qed
  with r show ?thesis by (simp add: s'_def)
qed

lemma orderly_tick_stop:
  assumes c: "consistent s" and n: "orderly s" and a: "getAsync s i = Some (StopAwaitChain p)"
  shows "orderly (setAsync i (StopAwaitChain (fst (tick p s))) (snd (tick p s))) \<and>
         stateRank (appState s) \<le> stateRank (appState (snd (tick p s)))"
proof -
  define s' where "s' = setAsync i (StopAwaitChain (fst (tick p s))) (snd (tick p s))"
  have t: "tick p s = (fst (tick p s), snd (tick p s))" by simp
  note fr = tick_frame[OF t]
  from consistentD(6)[OF c a] have sc: "stopChain (appState s) p" by simp
  note r = tick_stop_rank[OF t sc]
  have p: "promises s' = (promises s)[i := StopAwaitChain (fst (tick p s))]"
    using fr by (simp_all add: s'_def setAsync_def)
  from a have "stopRunning s" unfolding stopRunning_def by blast
  with n have np: "\<not> startPending s" unfolding orderly_def by blast
  have "startPending s' \<Longrightarrow> startPending s"
    unfolding startPending_def by (auto simp: getAsync_update[OF p] split: if_splits)
  with np have "orderly s'" unfolding orderly_def by blast
  with r show ?thesis by (simp add: s'_def)
qed

lemma setAsync_appState: "appState (setAsync i a s) = appState s"
  by (simp add: setAsync_def)

lemma orderly_resume:
  assumes c: "consistent s" and n: "orderly s"
  shows "orderly (resume i s) \<and> stateRank (appState s) \<le> stateRank (appState (resume i s))"
proof (cases "getAsync s i")
  case None
  with n show ?thesis by (simp add: resume_settled)
next
  case (Some a)
  show ?thesis
  proof (cases a)
    case (StartAwaitChain p)
    note a = Some[unfolded StartAwaitChain]
    show ?thesis
    proof (cases p)
      case Fulfilled
      show ?thesis
        by (simp add: resume_StartAwaitChain[OF a] Fulfilled orderly_setAsync n setAsync_appState)
    next
      case (Rejected e)
      define s1 where "s1 = logger (ErrorObj e) s"
      have n1: "orderly s1" by (rule orderly_fields[OF n]) (simp_all add: s1_def logger_def)
      have g: "getAsync s1 = getAsync s" by (rule getAsync_cong) (simp add: s1_def logger_def)
      have "\<not> startPending s1"
      proof
        assume "startPending s1"
        then obtain j q where j: "getAsync s j = Some (StartAwaitChain q)" "StartedFn \<in> set (ahead q)"
          unfolding startPending_def g by blast
        from start_chain_unique[OF c a j(1)] j(2) Rejected show False by (simp add: ahead_def)
      qed
      from orderly_stop[OF n1] this have "orderly (snd (stop s1))" by simp
      then have "orderly (setAsync i (StartAwaitStop (fst (stop s1))) (snd (stop s1)))"
        by (rule orderly_setAsync) simp_all
      moreover have "appState (snd (stop s1)) = appState s"
        by (simp add: stop_appState s1_def logger_def)
      ultimately show ?thesis
        by (simp add: resume_StartAwaitChain[OF a] Rejected s1_def setAsync_appState)
    qed (use orderly_tick_start[OF c n a] in
          \<open>simp_all add: resume_StartAwaitChain[OF a] setAsync_appState\<close>)
  next
    case (StartAwaitStop r)
    note a = Some[unfolded StartAwaitStop]
    show ?thesis
      by (auto simp: resume_StartAwaitStop[OF a] n orderly_setAsync setAsync_appState
            split: option.splits async.splits)
  next
    case (StopAwaitChain p)
    note a = Some[unfolded StopAwaitChain]
    show ?thesis
    proof (cases p)
      case Fulfilled
      have "orderly (s\<lparr>diagnostics := Suc (diagnostics s)\<rparr>)"
        by (rule orderly_fields[OF n]) simp_all
      then show ?thesis
        by (simp add: resume_StopAwaitChain[OF a] Fulfilled orderly_setAsync setAsync_appState)
    next
      case (Rejected e)
      show ?thesis
        by (simp add: resume_StopAwaitChain[OF a] Rejected orderly_setAsync n setAsync_appState)
    qed (use orderly_tick_stop[OF c n a] in
          \<open>simp_all add: resume_StopAwaitChain[OF a] setAsync_appState\<close>)
  next
    case (ShutdownAwaitStop code r)
    note a = Some[unfolded ShutdownAwaitStop]
    have "orderly (processExit code s)" "orderly (processExit code (logger l s))" for l
      by (rule orderly_fields[OF n]; simp add: processExit_def logger_def)+
    then show ?thesis
      by (auto simp: resume_ShutdownAwaitStop[OF a] n processExit_def logger_def
            split: option.splits async.splits)
  next
    case Resolved
    with Some n show ?thesis by (simp add: resume_settled)
  next
    case (Failed e)
    with Some n show ?thesis by (simp add: resume_settled[where e = e])
  qed
qed

lemma settleHook_appState: "appState (settleHook i r s) = appState s"
  by (auto simp: settleHook_def settleIn_def setAsync_def split: option.splits async.splits)

lemma orderly_settle_start:
  assumes n: "orderly s" and a: "getAsync s i = Some (StartAwaitChain p)"
    and f: "inFlight p = Some (l, h)"
  shows "orderly (setAsync i (StartAwaitChain (settle r p)) (s\<lparr>trace := trace s @ [ev]\<rparr>))"
proof -
  define s' where "s' = setAsync i (StartAwaitChain (settle r p)) (s\<lparr>trace := trace s @ [ev]\<rparr>)"
  have p: "promises s' = (promises s)[i := StartAwaitChain (settle r p)]"
    and as: "appState s' = appState s"
    by (simp_all add: s'_def setAsync_def)
  have 1: "startPending s' \<Longrightarrow> startPending s"
    unfolding startPending_def using a ahead_settle[OF f, of r]
    by (auto simp: getAsync_update[OF p] split: if_splits) (metis list.set_intros(2))
  have 2: "stopRunning s' \<Longrightarrow> stopRunning s"
    unfolding stopRunning_def by (auto simp: getAsync_update[OF p] split: if_splits)
  from n 1 2 show ?thesis unfolding orderly_def s'_def[symmetric] by (auto simp: as)
qed

lemma orderly_settle_stop:
  assumes n: "orderly s" and a: "getAsync s i = Some (StopAwaitChain p)"
  shows "orderly (setAsync i (StopAwaitChain p') (s\<lparr>trace := trace s @ [ev]\<rparr>))"
proof -
  define s' where "s' = setAsync i (StopAwaitChain p') (s\<lparr>trace := trace s @ [ev]\<rparr>)"
  have p: "promises s' = (promises s)[i := StopAwaitChain p']"
    by (simp_all add: s'_def setAsync_def)
  from a have "stopRunning s" unfolding stopRunning_def by blast
  with n have np: "\<not> startPending s" unfolding orderly_def by blast
  have "startPending s' \<Longrightarrow> startPending s"
    unfolding startPending_def by (auto simp: getAsync_update[OF p] split: if_splits)
  with np show ?thesis unfolding orderly_def s'_def[symmetric] by blast
qed

lemma orderly_settleHook:
  assumes n: "orderly s"
  shows "orderly (settleHook i r s)"
proof (cases "getAsync s i")
  case None
  with n show ?thesis by (simp add: settleHook_def)
next
  case (Some a)
  show ?thesis
  proof (cases a)
    case (StartAwaitChain p)
    note a = Some[unfolded StartAwaitChain]
    show ?thesis
    proof (cases "inFlight p")
      case None
      with n a show ?thesis by (simp add: settleHook_def settleIn_def setAsync_same)
    next
      case (Some lh)
      obtain l h where lh: "lh = (l, h)" by (cases lh)
      from orderly_settle_start[OF n a Some[unfolded lh], of r "Settled l h r"]
      show ?thesis by (simp add: settleHook_def settleIn_def a Some lh)
    qed
  next
    case (StopAwaitChain p)
    note a = Some[unfolded StopAwaitChain]
    show ?thesis
    proof (cases "inFlight p")
      case None
      with n a show ?thesis by (simp add: settleHook_def settleIn_def setAsync_same)
    next
      case (Some lh)
      obtain l h where lh: "lh = (l, h)" by (cases lh)
      from orderly_settle_stop[OF n a, of "settle r p" "Settled l h r"]
      show ?thesis by (simp add: settleHook_def settleIn_def a Some lh)
    qed
  qed (use Some n in \<open>simp_all add: settleHook_def\<close>)
qed

lemma orderly_shutdown:
  assumes n: "orderly s" and m: "appState s \<noteq> STARTING"
  shows "orderly (shutdown code s) \<and> appState (shutdown code s) = appState s"
proof -
  define s1 where "s1 = (logger (Stdout [CHR 0x0A]) s)\<lparr>deadlines := deadlines s @ [code]\<rparr>"
  have n1: "orderly s1" by (rule orderly_fields[OF n]) (simp_all add: s1_def logger_def)
  have a1: "appState s1 = appState s" by (simp add: s1_def logger_def)
  have k4: "orderly (processExit code s1)"
    by (rule orderly_fields[OF n1]) (simp_all add: processExit_def)
  have k5: "orderly ((logger l s1)\<lparr>forceShutdown := True\<rparr>)" for l
    by (rule orderly_fields[OF n1]) (simp_all add: logger_def)
  have "\<not> startPending s1 \<or> appState s1 = IDLE"
    using n1 m unfolding orderly_def a1 by blast
  from orderly_stop[OF n1 this] have "orderly (snd (stop s1))" .
  then have k2: "orderly (snd (newAsync (ShutdownAwaitStop code (fst (stop s1))) (snd (stop s1))))"
    by (rule orderly_append[where a' = "ShutdownAwaitStop code (fst (stop s1))"])
      (simp_all add: newAsync_def)
  have u: "shutdown code s =
      (if appState s = STOPPING \<and> code = 0 then
        (if forceShutdown s then processExit code s1
         else (logger (Warn ''The application is yet to finishing the shutdown process. Repeat the command to force exit'') s1)
                \<lparr>forceShutdown := True\<rparr>)
      else if appState s \<noteq> STOPPED then
        snd (newAsync (ShutdownAwaitStop code (fst (stop s1))) (snd (stop s1)))
      else processExit code s1)"
    by (simp add: shutdown_unfold Let_def s1_def)
  have "appState (shutdown code s) = appState s"
    by (simp add: u a1 processExit_def logger_def newAsync_def stop_appState)
  moreover have "orderly (shutdown code s)"
    using k2 k4 k5 by (auto simp: u)
  ultimately show ?thesis by simp
qed

lemma orderly_step:
  assumes c: "consistent s" and n: "orderly s"
    and m: "stopRequest e \<longrightarrow> appState s \<noteq> STARTING"
  shows "orderly (step e s) \<and> stateRank (appState s) \<le> stateRank (appState (step e s))"
proof (cases "exited s = None")
  case False
  with n show ?thesis by (auto simp: step_def)
next
  case True
  then have f: "step e s = fire e s" by (simp add: step_def)
  have "orderly (fire e s) \<and> stateRank (appState s) \<le> stateRank (appState (fire e s))"
  proof (cases e)
    case CallStart
    then show ?thesis by (simp add: orderly_start start_appState c n)
  next
    case CallStop
    with m n have "\<not> startPending s \<or> appState s = IDLE" unfolding orderly_def by auto
    from orderly_stop[OF n this] CallStop show ?thesis by (simp add: stop_appState)
  next
    case (CallOnce l fn ord)
    have "orderly (once l fn ord s)" by (rule orderly_fields[OF n]) (simp_all add: once_def Let_def)
    with CallOnce show ?thesis by (simp add: once_def Let_def)
  next
    case (Signal code)
    with m orderly_shutdown[OF n, of code] show ?thesis by simp
  next
    case (Resume i)
    with orderly_resume[OF c n, of i] show ?thesis by simp
  next
    case (SettleHook i r)
    then show ?thesis by (simp add: orderly_settleHook n settleHook_appState)
  next
    case DeadlineFires
    have "orderly (deadlineFires s)"
      by (rule orderly_fields[OF n])
        (simp_all add: deadlineFires_def processExit_def logger_def split: list.splits)
    with DeadlineFires show ?thesis
      by (simp add: deadlineFires_def processExit_def logger_def split: list.splits)
  next
    case DiagnosticFires
    have "orderly (diagnosticFires s)"
      by (rule orderly_fields[OF n]) (simp_all add: diagnosticFires_def logger_def)
    with DiagnosticFires show ?thesis by (simp add: diagnosticFires_def logger_def)
  qed
  with f show ?thesis by simp
qed

lemma statesAlong_Cons: "\<exists>xs. statesAlong es s = appState s # xs"
  by (cases es) simp_all

lemma calm_forwardOnly:
  "consistent s \<Longrightarrow> orderly s \<Longrightarrow> calm es s \<Longrightarrow> forwardOnly (statesAlong es s)"
proof (induction es arbitrary: s)
  case Nil
  then show ?case by (simp add: forwardOnly_def)
next
  case (Cons e es)
  from Cons.prems(3) have m: "stopRequest e \<longrightarrow> appState s \<noteq> STARTING"
    and cl: "calm es (step e s)" by simp_all
  note st = orderly_step[OF Cons.prems(1,2) m]
  from Cons.IH[OF consistent_step[OF Cons.prems(1)] _ cl] st
  have ih: "forwardOnly (statesAlong es (step e s))" by simp
  obtain xs where xs: "statesAlong es (step e s) = appState (step e s) # xs"
    using statesAlong_Cons by blast
  from ih st show ?case by (fastforce simp: forwardOnly_def xs)
qed

lemma orderly_makeApp: "orderly makeApp"
  by (simp add: orderly_def startPending_def makeApp_def getAsync_def)

text \<open>
  Claim C1. The code breaks this invariant when \<open>stop()\<close> is called while the chain of
  \<open>start\<close> is in flight: \<open>stop\<close> neither waits for that chain nor cancels it, and the
  functions that set the state assign it whatever it was. With a \<open>BOOTING\<close> hook in
  flight, \<open>stop()\<close> runs to its end and the state is \<open>STOPPED\<close>; when the hook is then
  fulfilled the chain of \<open>start\<close> goes on, and its last function sets the state back to
  \<open>STARTED\<close>.
\<close>

theorem stop_during_start_moves_back:
  "\<not> forwardOnly (statesAlong stopDuringStartRun makeApp) \<and>
   appState (run (butlast stopDuringStartRun) makeApp) = STOPPED \<and>
   appState (run stopDuringStartRun makeApp) = STARTED"
  by code_simp

text \<open>
  When no \<open>stop()\<close> and no shutdown signal arrives while the state is \<open>STARTING\<close>, the state
  does move forward only.
\<close>

lemma forwardOnly_when_calm:
  assumes "calm es makeApp"
  shows "forwardOnly (statesAlong es makeApp)"
  using calm_forwardOnly[OF consistent_makeApp orderly_makeApp assms] .

section \<open>A chain does run its hooks\<close>

lemma plug_append: "plug (fs @ gs) c = plug gs (plug fs c)"
  by (induction fs c rule: plug.induct) simp_all

lemma promiseChain_plug: "foldl (\<lambda>chain fn. Then chain fn) c ts = plug (map ThenF ts) c"
  by (induction ts arbitrary: c) simp_all

lemma promiseChain_Cons:
  "promiseChain (t # ts) = plug (map ThenF ts) (Then Fulfilled t)"
  by (simp add: promiseChain_def promiseChain_plug)

lemma promiseChain_eq_plug: "promiseChain ts = plug (map ThenF ts) Fulfilled"
  by (simp add: promiseChain_def promiseChain_plug)

lemma tick_Then_pending:
  "\<not> settled c \<Longrightarrow> tick (Then c t) s = (Then (fst (tick c s)) t, snd (tick c s))"
  by (cases c) (simp_all add: case_prod_beta)

lemma tick_Follow_pending:
  "\<not> settled c \<Longrightarrow> tick (Follow c) s = (Follow (fst (tick c s)), snd (tick c s))"
  by (cases c) (simp_all add: case_prod_beta)

text \<open>A job of a pending promise is a job of every promise derived from it.\<close>

lemma tick_plug:
  "\<not> settled c \<Longrightarrow> tick (plug fs c) s = (plug fs (fst (tick c s)), snd (tick c s))"
proof (induction fs c rule: plug.induct)
  case (1 c)
  then show ?case by simp
next
  case (2 t fs c)
  have "\<not> settled (Then c t)" by simp
  from "2.IH"[OF this] tick_Then_pending[OF "2.prems", of t s] show ?case
    by (simp del: tick.simps)
next
  case (3 fs c)
  have "\<not> settled (Follow c)" by simp
  from "3.IH"[OF this] tick_Follow_pending[OF "3.prems", of s] show ?case
    by (simp del: tick.simps)
qed

lemma inFlight_plug: "inFlight (plug fs c) = inFlight c"
  by (induction fs c rule: plug.induct) simp_all

lemma settle_plug: "settle r (plug fs c) = plug fs (settle r c)"
  by (induction fs c rule: plug.induct) simp_all

lemma depth_plug: "depth (plug fs c) = length fs + depth c"
  by (induction fs c rule: plug.induct) simp_all

lemma core_plug: "core (plug fs c) = core c"
  by (induction fs c rule: plug.induct) simp_all

lemma runChain_append: "runChain (es @ es') c = runChain es' (runChain es c)"
  by (induction es arbitrary: c) simp_all

text \<open>One hook of a chain, fulfilled: it is called, and the chain goes on behind it.\<close>

lemma hook_fulfilled:
  "runChain [Job, Settles None, Job] (plug fs (Then Fulfilled (Hook l h)), s) =
     (plug fs Fulfilled, s\<lparr>trace := trace s @ [Called l h, Settled l h None]\<rparr>)"
proof -
  have 1: "chainStep Job (plug fs (Then Fulfilled (Hook l h)), s) =
      (plug fs (Follow (HookPending l h)), s\<lparr>trace := trace s @ [Called l h]\<rparr>)"
    by (simp add: tick_plug)
  have 2: "chainStep (Settles None) (plug fs (Follow (HookPending l h)), s\<lparr>trace := trace s @ [Called l h]\<rparr>) =
      (plug fs (Follow Fulfilled), s\<lparr>trace := trace s @ [Called l h, Settled l h None]\<rparr>)"
    by (simp add: settleIn_def inFlight_plug settle_plug)
  have 3: "chainStep Job (plug fs (Follow Fulfilled), s') = (plug fs Fulfilled, s')" for s'
    by (simp add: tick_plug)
  show ?thesis by (simp only: runChain.simps 1 2 3)
qed

text \<open>One hook of a chain, failed: the rejection is inside the chain.\<close>

lemma hook_failed:
  "runChain [Job, Settles (Some n)] (plug fs (Then Fulfilled (Hook l h)), s) =
     (plug fs (Follow (Rejected (HookError n))),
      s\<lparr>trace := trace s @ [Called l h, Settled l h (Some n)]\<rparr>)"
proof -
  have 1: "chainStep Job (plug fs (Then Fulfilled (Hook l h)), s) =
      (plug fs (Follow (HookPending l h)), s\<lparr>trace := trace s @ [Called l h]\<rparr>)"
    by (simp add: tick_plug)
  have 2: "chainStep (Settles (Some n)) (plug fs (Follow (HookPending l h)), s\<lparr>trace := trace s @ [Called l h]\<rparr>) =
      (plug fs (Follow (Rejected (HookError n))),
       s\<lparr>trace := trace s @ [Called l h, Settled l h (Some n)]\<rparr>)"
    by (simp add: settleIn_def inFlight_plug settle_plug)
  show ?thesis by (simp only: runChain.simps 1 2)
qed

lemma hookJobs_Cons: "hookJobs (h # hs) = [Job, Settles None, Job] @ hookJobs hs"
  by (simp add: hookJobs_def)

text \<open>All hooks of a list, each fulfilled: every one is called once, in list order.\<close>

lemma hooks_fulfilled:
  "runChain (hookJobs hs) (plug fs (promiseChain (map (Hook l) hs)), s) =
     (plug fs Fulfilled, s\<lparr>trace := trace s @ allFulfilled l hs\<rparr>)"
proof (induction hs arbitrary: s)
  case Nil
  show ?case by (simp add: hookJobs_def promiseChain_def allFulfilled_def)
next
  case (Cons h hs)
  have c: "plug fs (promiseChain (map (Hook l) (h # hs))) =
      plug (map ThenF (map (Hook l) hs) @ fs) (Then Fulfilled (Hook l h))"
    by (simp add: promiseChain_Cons plug_append)
  have d: "plug (map ThenF (map (Hook l) hs) @ fs) Fulfilled = plug fs (promiseChain (map (Hook l) hs))"
    by (simp add: promiseChain_eq_plug plug_append)
  show ?case
    unfolding c hookJobs_Cons runChain_append hook_fulfilled d Cons.IH
    by (simp add: allFulfilled_Cons)
qed

lemma hooks_then_failure:
  "runChain (hookJobs pre @ [Job, Settles (Some n)] @ replicate (Suc (length post)) Job)
      (promiseChain (map (Hook l) (pre @ h # post)), s) =
     (Rejected (HookError n),
      s\<lparr>trace := trace s @ allFulfilled l pre @ [Called l h, Settled l h (Some n)]\<rparr>)"
proof -
  define fs where "fs = map ThenF (map (Hook l) post)"
  define gs where "gs = map ThenF (map (Hook l) (h # post))"
  have a: "promiseChain (map (Hook l) (pre @ h # post)) = plug gs (promiseChain (map (Hook l) pre))"
    by (simp add: promiseChain_eq_plug plug_append gs_def)
  have b: "plug gs Fulfilled = plug fs (Then Fulfilled (Hook l h))"
    by (simp add: gs_def fs_def)
  define p where "p = plug fs (Follow (Rejected (HookError n)))"
  have d: "depth p = Suc (length post)" "core p = Rejected (HookError n)"
    by (simp_all add: p_def depth_plug core_plug fs_def)
  from rejected_chain_settles[OF d(2)]
  have e: "runChain (replicate (Suc (length post)) Job) (p, s') = (Rejected (HookError n), s')" for s'
    by (simp only: d(1))
  show ?thesis
    unfolding a runChain_append hooks_fulfilled b hook_failed p_def[symmetric] e
    by simp
qed

text \<open>
  Claim C2. The chain of the hooks \<open>hs\<close> of one phase, \<open>promiseChain (map (Hook l) hs)\<close>,
  started in any state and driven by any sequence of promise jobs and hook settlements:
  what it adds to the record of hook events is a one-at-a-time run of \<open>hs\<close> in list order,
  each hook called only after the one before it was fulfilled and none after a failure;
  when the chain is fulfilled every hook of the list was called and fulfilled; when it is
  rejected the error is that of the hook that failed; once a hook has failed the chain is
  rejected with that hook's error after finitely many jobs, without another hook being
  called; and the chain of the empty list is fulfilled from the start. The chain does
  run its hooks: when the jobs are run and every hook is fulfilled as soon as it is in
  flight, then after the events \<open>hookJobs hs\<close> the chain is fulfilled and every hook of the
  list was called exactly once, in list order; and when the hooks before \<open>h\<close> are fulfilled
  and \<open>h\<close> fails, the chain is rejected with the failure of \<open>h\<close> and no hook after \<open>h\<close> was
  called.
\<close>

theorem promiseChain_sequential:
  assumes "runChain evs (promiseChain (map (Hook l) hs), s) = (p, s')"
  shows "trace s' = trace s @ drop (length (trace s)) (trace s') \<and>
         oneAtATime l hs (drop (length (trace s)) (trace s')) \<and>
         (p = Fulfilled \<longrightarrow> drop (length (trace s)) (trace s') = allFulfilled l hs) \<and>
         (\<forall>e. p = Rejected e \<longrightarrow>
            (\<exists>n. e = HookError n \<and> failure (drop (length (trace s)) (trace s')) = Some n)) \<and>
         (\<forall>n. failure (drop (length (trace s)) (trace s')) = Some n \<longrightarrow>
            runChain (replicate (depth p) Job) (p, s') = (Rejected (HookError n), s')) \<and>
         promiseChain [] = Fulfilled \<and>
         runChain (hookJobs hs) (promiseChain (map (Hook l) hs), s) =
           (Fulfilled, s\<lparr>trace := trace s @ allFulfilled l hs\<rparr>) \<and>
         (\<forall>pre h post n. hs = pre @ h # post \<longrightarrow>
            runChain (hookJobs pre @ [Job, Settles (Some n)] @ replicate (Suc (length post)) Job)
              (promiseChain (map (Hook l) hs), s) =
            (Rejected (HookError n),
             s\<lparr>trace := trace s @ allFulfilled l pre @ [Called l h, Settled l h (Some n)]\<rparr>))"
proof -
  from hooksRun_run[OF hooksRun_start _ assms, of "trace s"]
  obtain tr where tr: "trace s' = trace s @ tr" "hooksRun l hs tr p" by auto
  from tr(1) have d: "drop (length (trace s)) (trace s') = tr" by simp
  have 1: "oneAtATime l hs tr" using tr(2) by (rule hooksRun_oneAtATime)
  have 2: "p = Fulfilled \<longrightarrow> tr = allFulfilled l hs" using tr(2) hooksRun_Fulfilled by blast
  have 3: "\<forall>e. p = Rejected e \<longrightarrow> (\<exists>n. e = HookError n \<and> failure tr = Some n)"
    using tr(2) hooksRun_Rejected by blast
  have 4: "\<forall>n. failure tr = Some n \<longrightarrow>
            runChain (replicate (depth p) Job) (p, s') = (Rejected (HookError n), s')"
    using hooksRun_failure[OF tr(2)] rejected_chain_settles by blast
  have 5: "promiseChain [] = Fulfilled" by (simp add: promiseChain_def)
  have 6: "runChain (hookJobs hs) (promiseChain (map (Hook l) hs), s) =
           (Fulfilled, s\<lparr>trace := trace s @ allFulfilled l hs\<rparr>)"
    using hooks_fulfilled[of hs "[]" l s] by simp
  have 7: "\<forall>pre h post n. hs = pre @ h # post \<longrightarrow>
            runChain (hookJobs pre @ [Job, Settles (Some n)] @ replicate (Suc (length post)) Job)
              (promiseChain (map (Hook l) hs), s) =
            (Rejected (HookError n),
             s\<lparr>trace := trace s @ allFulfilled l pre @ [Called l h, Settled l h (Some n)]\<rparr>)"
    using hooks_then_failure by blast
  from tr(1) 1 2 3 4 5 6 7 show ?thesis unfolding d by blast
qed

theorem promiseChain_sequential_witness:
  "fst (runChain [Job, Settles None, Job, Job, Settles (Some 7), Job]
          (promiseChain (map (Hook BOOTED) [1, 2]), makeApp)) = Rejected (HookError 7) \<and>
   trace (snd (runChain [Job, Settles None, Job, Job, Settles (Some 7), Job]
          (promiseChain (map (Hook BOOTED) [1, 2]), makeApp))) =
     [Called BOOTED 1, Settled BOOTED 1 None, Called BOOTED 2, Settled BOOTED 2 (Some 7)] \<and>
   oneAtATime BOOTED [1, 2]
     [Called BOOTED 1, Settled BOOTED 1 None, Called BOOTED 2, Settled BOOTED 2 (Some 7)] \<and>
   fst (runChain [Job, Settles None, Job, Job, Settles None, Job]
          (promiseChain (map (Hook BOOTED) [1, 2]), makeApp)) = Fulfilled \<and>
   trace (snd (runChain [Job, Settles None, Job, Job, Settles None, Job]
          (promiseChain (map (Hook BOOTED) [1, 2]), makeApp))) = allFulfilled BOOTED [1, 2]"
proof -
  let ?c = "(promiseChain (map (Hook BOOTED) [1, 2]), makeApp)"
  let ?e1 = "[Job, Settles None, Job, Job, Settles (Some 7), Job]"
  let ?e2 = "[Job, Settles None, Job, Job, Settles None, Job]"
  have a: "fst (runChain ?e1 ?c) = Rejected (HookError 7)" by code_simp
  have b: "trace (snd (runChain ?e1 ?c)) =
     [Called BOOTED 1, Settled BOOTED 1 None, Called BOOTED 2, Settled BOOTED 2 (Some 7)]"
    by code_simp
  have c: "fst (runChain ?e2 ?c) = Fulfilled" by code_simp
  have t0: "trace makeApp = []" by (simp add: makeApp_def)
  from promiseChain_sequential[of ?e1 BOOTED "[1, 2]" makeApp "fst (runChain ?e1 ?c)" "snd (runChain ?e1 ?c)"]
  have d: "oneAtATime BOOTED [1, 2]
     [Called BOOTED 1, Settled BOOTED 1 None, Called BOOTED 2, Settled BOOTED 2 (Some 7)]"
    by (simp add: t0 b)
  from promiseChain_sequential[of ?e2 BOOTED "[1, 2]" makeApp "fst (runChain ?e2 ?c)" "snd (runChain ?e2 ?c)"] c
  have e: "trace (snd (runChain ?e2 ?c)) = allFulfilled BOOTED [1, 2]"
    by (simp add: t0)
  from a b c d e show ?thesis by simp
qed

section \<open>Start runs the hooks once\<close>

lemma call_setAsync:
  "call t (setAsync i a s) = (fst (call t s), setAsync i a (snd (call t s)))"
  by (cases t) (simp_all add: setAsync_def)

lemma tick_setAsync:
  "tick p (setAsync i a s) = (fst (tick p s), setAsync i a (snd (tick p s)))"
proof (induction p)
  case (Then chain fn)
  then show ?case by (cases chain) (simp_all add: case_prod_beta call_setAsync)
next
  case (Follow q)
  then show ?case by (cases q) (simp_all add: case_prod_beta)
qed simp_all

lemma setAsync_twice: "setAsync i a (setAsync i b s) = setAsync i a s"
  by (simp add: setAsync_def)

lemma settled_plug: "\<not> settled c \<Longrightarrow> \<not> settled (plug fs c)"
  by (induction fs c rule: plug.induct) simp_all

text \<open>A job of the chain that invocation \<open>i\<close> of \<open>start\<close> awaits, as long as the chain is pending.\<close>

lemma resume_job:
  assumes "exited s = None" "i < length (promises s)" "\<not> settled p"
  shows "step (Resume i) (setAsync i (StartAwaitChain p) s) =
           setAsync i (StartAwaitChain (fst (tick p s))) (snd (tick p s))"
proof -
  have g: "getAsync (setAsync i (StartAwaitChain p) s) i = Some (StartAwaitChain p)"
    using assms(2) by (simp add: getAsync_setAsync)
  have e: "exited (setAsync i (StartAwaitChain p) s) = None"
    using assms(1) by (simp add: setAsync_def)
  have "resume i (setAsync i (StartAwaitChain p) s) =
      setAsync i (StartAwaitChain (fst (tick p (setAsync i (StartAwaitChain p) s))))
        (snd (tick p (setAsync i (StartAwaitChain p) s)))"
    unfolding resume_StartAwaitChain[OF g]
    using assms(3) by (cases p) (simp_all del: tick.simps)
  then show ?thesis
    by (simp add: step_def e tick_setAsync setAsync_twice del: tick.simps)
qed

lemma settle_job:
  assumes "exited s = None" "i < length (promises s)" "inFlight p = Some (l, h)"
  shows "step (SettleHook i r) (setAsync i (StartAwaitChain p) s) =
           setAsync i (StartAwaitChain (settle r p)) (s\<lparr>trace := trace s @ [Settled l h r]\<rparr>)"
proof -
  have g: "getAsync (setAsync i (StartAwaitChain p) s) i = Some (StartAwaitChain p)"
    using assms(2) by (simp add: getAsync_setAsync)
  have e: "exited (setAsync i (StartAwaitChain p) s) = None"
    using assms(1) by (simp add: setAsync_def)
  show ?thesis
    by (simp add: step_def e settleHook_def g settleIn_def assms(3)) (simp add: setAsync_def)
qed

lemma hook_block:
  assumes "exited s = None" "i < length (promises s)"
  shows "run [Resume i, SettleHook i None, Resume i]
           (setAsync i (StartAwaitChain (plug fs (Then Fulfilled (Hook l h)))) s) =
         setAsync i (StartAwaitChain (plug fs Fulfilled))
           (s\<lparr>trace := trace s @ [Called l h, Settled l h None]\<rparr>)"
proof -
  define s1 where "s1 = s\<lparr>trace := trace s @ [Called l h]\<rparr>"
  define s2 where "s2 = s1\<lparr>trace := trace s1 @ [Settled l h None]\<rparr>"
  have ok: "exited s1 = None" "i < length (promises s1)" "exited s2 = None" "i < length (promises s2)"
    using assms by (simp_all add: s1_def s2_def)
  have 1: "step (Resume i) (setAsync i (StartAwaitChain (plug fs (Then Fulfilled (Hook l h)))) s) =
      setAsync i (StartAwaitChain (plug fs (Follow (HookPending l h)))) s1"
    by (simp add: resume_job[OF assms] settled_plug tick_plug s1_def)
  have 2: "step (SettleHook i None) (setAsync i (StartAwaitChain (plug fs (Follow (HookPending l h)))) s1) =
      setAsync i (StartAwaitChain (plug fs (Follow Fulfilled))) s2"
    by (simp add: settle_job[OF ok(1,2), where l = l and h = h] inFlight_plug settle_plug s2_def)
  have 3: "step (Resume i) (setAsync i (StartAwaitChain (plug fs (Follow Fulfilled))) s2) =
      setAsync i (StartAwaitChain (plug fs Fulfilled)) s2"
    by (simp add: resume_job[OF ok(3,4)] settled_plug tick_plug)
  have "s2 = s\<lparr>trace := trace s @ [Called l h, Settled l h None]\<rparr>"
    by (simp add: s2_def s1_def)
  with 1 2 3 show ?thesis by (simp only: run.simps)
qed

lemma hookEvents_Cons:
  "hookEvents i (h # hs) = [Resume i, SettleHook i None, Resume i] @ hookEvents i hs"
  by (simp add: hookEvents_def)

lemma hooks_block:
  assumes "exited s = None" "i < length (promises s)"
  shows "run (hookEvents i hs) (setAsync i (StartAwaitChain (plug fs (promiseChain (map (Hook l) hs)))) s) =
         setAsync i (StartAwaitChain (plug fs Fulfilled)) (s\<lparr>trace := trace s @ allFulfilled l hs\<rparr>)"
  using assms
proof (induction hs arbitrary: s)
  case Nil
  show ?case by (simp add: hookEvents_def promiseChain_def allFulfilled_def)
next
  case (Cons h hs)
  define s1 where "s1 = s\<lparr>trace := trace s @ [Called l h, Settled l h None]\<rparr>"
  have ok: "exited s1 = None" "i < length (promises s1)" using Cons.prems by (simp_all add: s1_def)
  have c: "plug fs (promiseChain (map (Hook l) (h # hs))) =
      plug (map ThenF (map (Hook l) hs) @ fs) (Then Fulfilled (Hook l h))"
    by (simp add: promiseChain_Cons plug_append)
  have d: "plug (map ThenF (map (Hook l) hs) @ fs) Fulfilled = plug fs (promiseChain (map (Hook l) hs))"
    by (simp add: promiseChain_eq_plug plug_append)
  show ?case
    unfolding c hookEvents_Cons run_append hook_block[OF Cons.prems] d s1_def[symmetric]
      Cons.IH[OF ok]
    by (simp add: s1_def allFulfilled_Cons)
qed

lemma status_block:
  assumes "exited s = None" "i < length (promises s)"
  shows "run [Resume i, Resume i] (setAsync i (StartAwaitChain (plug fs (Then Fulfilled (Status a)))) s) =
         setAsync i (StartAwaitChain (plug fs Fulfilled)) (s\<lparr>appState := a\<rparr>)"
proof -
  define s1 where "s1 = s\<lparr>appState := a\<rparr>"
  have ok: "exited s1 = None" "i < length (promises s1)" using assms by (simp_all add: s1_def)
  have 1: "step (Resume i) (setAsync i (StartAwaitChain (plug fs (Then Fulfilled (Status a)))) s) =
      setAsync i (StartAwaitChain (plug fs (Follow Fulfilled))) s1"
    by (simp add: resume_job[OF assms] settled_plug tick_plug s1_def)
  have 3: "step (Resume i) (setAsync i (StartAwaitChain (plug fs (Follow Fulfilled))) s1) =
      setAsync i (StartAwaitChain (plug fs Fulfilled)) s1"
    by (simp add: resume_job[OF ok] settled_plug tick_plug)
  from 1 3 show ?thesis by (simp only: run.simps s1_def)
qed

lemma phase_block:
  assumes "exited s = None" "i < length (promises s)"
  shows "run (phaseEvents i (hooks s) l) (setAsync i (StartAwaitChain (plug fs (Then Fulfilled (Thunk l)))) s) =
         setAsync i (StartAwaitChain (plug fs Fulfilled))
           (s\<lparr>trace := trace s @ allFulfilled l (hooks_get (hooks s) l)\<rparr>)"
proof -
  define hs where "hs = hooks_get (hooks s) l"
  define s1 where "s1 = s\<lparr>trace := trace s @ allFulfilled l hs\<rparr>"
  have ok: "exited s1 = None" "i < length (promises s1)" using assms by (simp_all add: s1_def)
  have 1: "step (Resume i) (setAsync i (StartAwaitChain (plug fs (Then Fulfilled (Thunk l)))) s) =
      setAsync i (StartAwaitChain (plug (FollowF # fs) (promiseChain (map (Hook l) hs)))) s"
    by (simp add: resume_job[OF assms] settled_plug tick_plug hs_def)
  have 2: "run (hookEvents i hs)
        (setAsync i (StartAwaitChain (plug (FollowF # fs) (promiseChain (map (Hook l) hs)))) s) =
      setAsync i (StartAwaitChain (plug fs (Follow Fulfilled))) s1"
    using hooks_block[OF assms, of hs "FollowF # fs" l] by (simp add: s1_def)
  have 3: "step (Resume i) (setAsync i (StartAwaitChain (plug fs (Follow Fulfilled))) s1) =
      setAsync i (StartAwaitChain (plug fs Fulfilled)) s1"
    by (simp add: resume_job[OF ok] settled_plug tick_plug)
  show ?thesis
    unfolding phaseEvents_def hs_def[symmetric] run_append s1_def[symmetric]
    by (simp only: run.simps 1 2 3)
qed

lemma started_block:
  assumes "exited s = None" "i < length (promises s)"
  shows "run [Resume i] (setAsync i (StartAwaitChain (plug fs (Then Fulfilled StartedFn))) s) =
         setAsync i (StartAwaitChain (plug fs (Follow (GatePending (gates s)))))
           (s\<lparr>logs := logs s @ [Info ''Application started''], appState := STARTED,
              release := Some (gates s), gates := Suc (gates s)\<rparr>)"
  by (simp add: resume_job[OF assms] settled_plug tick_plug)

lemma step_CallStart_again: "startMemo s = Some p \<Longrightarrow> step CallStart s = s"
  by (simp add: step_def start_memo)

text \<open>
  The first call of \<open>start\<close>, then the jobs of its chain with every hook fulfilled: the
  state is \<open>STARTED\<close> and every start-up hook of the registry was called exactly once.
\<close>

lemma start_runs_hooks:
  assumes c: "consistent s0" and m: "startMemo s0 = None" and x: "exited s0 = None"
  shows "appState (run (startEvents (fst (start s0)) (hooks s0)) (snd (start s0))) = STARTED \<and>
         trace (run (startEvents (fst (start s0)) (hooks s0)) (snd (start s0))) = startupRecord (hooks s0) \<and>
         getAsync (run (startEvents (fst (start s0)) (hooks s0)) (snd (start s0))) (fst (start s0)) =
           Some (StartAwaitChain (Follow (GatePending (gates s0))))"
proof -
  define i where "i = length (promises s0)"
  define H where "H = hooks s0"
  define F1 where "F1 = [ThenF (Thunk BOOTING), ThenF (Thunk BOOTED), ThenF (Thunk READY),
     ThenF (Thunk RUNNING), ThenF StartedFn]"
  define F2 where "F2 = [ThenF (Thunk BOOTED), ThenF (Thunk READY), ThenF (Thunk RUNNING), ThenF StartedFn]"
  define F3 where "F3 = [ThenF (Thunk READY), ThenF (Thunk RUNNING), ThenF StartedFn]"
  define F4 where "F4 = [ThenF (Thunk RUNNING), ThenF StartedFn]"
  define F5 where "F5 = [ThenF StartedFn]"
  define a0 where "a0 = snd (start s0)"
  define a1 where "a1 = a0\<lparr>appState := STARTING\<rparr>"
  define a2 where "a2 = a1\<lparr>trace := trace a1 @ allFulfilled BOOTING (hooks_get H BOOTING)\<rparr>"
  define a3 where "a3 = a2\<lparr>trace := trace a2 @ allFulfilled BOOTED (hooks_get H BOOTED)\<rparr>"
  define a4 where "a4 = a3\<lparr>trace := trace a3 @ allFulfilled READY (hooks_get H READY)\<rparr>"
  define a5 where "a5 = a4\<lparr>trace := trace a4 @ allFulfilled RUNNING (hooks_get H RUNNING)\<rparr>"
  define a6 where "a6 = a5\<lparr>logs := logs a5 @ [Info ''Application started''], appState := STARTED,
              release := Some (gates a5), gates := Suc (gates a5)\<rparr>"
  from consistentD(1)[OF c m] have idle: "appState s0 = IDLE" "current s0 = None"
    and t0: "trace s0 = []" by simp_all
  have st: "start s0 = (i, a0)" and a0: "a0 =
      s0\<lparr>logs := logs s0 @ [Info ''Starting application''], current := Some RUNNING,
        promises := promises s0 @
          [StartAwaitChain (promiseChain
             [Status STARTING, Thunk BOOTING, Thunk BOOTED, Thunk READY, Thunk RUNNING, StartedFn])],
        startMemo := Some i\<rparr>"
    by (simp_all add: a0_def i_def start_def memo_def m startBody_fresh[OF idle])
  have g0: "getAsync a0 i = Some (StartAwaitChain (plug F1 (Then Fulfilled (Status STARTING))))"
    by (simp add: a0 getAsync_def i_def promiseChain_Cons F1_def)
  have f0: "exited a0 = None" "i < length (promises a0)" "hooks a0 = H" "trace a0 = []"
    "gates a0 = gates s0"
    using x t0 by (simp_all add: a0 i_def H_def)
  have f1: "exited a1 = None" "i < length (promises a1)" "hooks a1 = H"
    using f0 by (simp_all add: a1_def)
  have f2: "exited a2 = None" "i < length (promises a2)" "hooks a2 = H"
    using f1 by (simp_all add: a2_def)
  have f3: "exited a3 = None" "i < length (promises a3)" "hooks a3 = H"
    using f2 by (simp_all add: a3_def)
  have f4: "exited a4 = None" "i < length (promises a4)" "hooks a4 = H"
    using f3 by (simp_all add: a4_def)
  have f5: "exited a5 = None" "i < length (promises a5)" "hooks a5 = H"
    using f4 by (simp_all add: a5_def)
  have s0': "a0 = setAsync i (StartAwaitChain (plug F1 (Then Fulfilled (Status STARTING)))) a0"
    using setAsync_same[OF g0] by simp
  have b1: "run [Resume i, Resume i] a0 = setAsync i (StartAwaitChain (plug F2 (Then Fulfilled (Thunk BOOTING)))) a1"
    using status_block[OF f0(1,2), where fs = F1 and a = STARTING] s0'[symmetric]
    by (simp add: a1_def F1_def F2_def)
  have b2: "run (phaseEvents i H BOOTING) (setAsync i (StartAwaitChain (plug F2 (Then Fulfilled (Thunk BOOTING)))) a1) =
      setAsync i (StartAwaitChain (plug F3 (Then Fulfilled (Thunk BOOTED)))) a2"
    using phase_block[OF f1(1,2), where fs = F2 and l = BOOTING] by (simp add: f1(3) a2_def F2_def F3_def)
  have b3: "run (phaseEvents i H BOOTED) (setAsync i (StartAwaitChain (plug F3 (Then Fulfilled (Thunk BOOTED)))) a2) =
      setAsync i (StartAwaitChain (plug F4 (Then Fulfilled (Thunk READY)))) a3"
    using phase_block[OF f2(1,2), where fs = F3 and l = BOOTED] by (simp add: f2(3) a3_def F3_def F4_def)
  have b4: "run (phaseEvents i H READY) (setAsync i (StartAwaitChain (plug F4 (Then Fulfilled (Thunk READY)))) a3) =
      setAsync i (StartAwaitChain (plug F5 (Then Fulfilled (Thunk RUNNING)))) a4"
    using phase_block[OF f3(1,2), where fs = F4 and l = READY] by (simp add: f3(3) a4_def F4_def F5_def)
  have b5: "run (phaseEvents i H RUNNING) (setAsync i (StartAwaitChain (plug F5 (Then Fulfilled (Thunk RUNNING)))) a4) =
      setAsync i (StartAwaitChain (plug [] (Then Fulfilled StartedFn))) a5"
    using phase_block[OF f4(1,2), where fs = F5 and l = RUNNING] by (simp add: f4(3) a5_def F5_def)
  have b6: "run [Resume i] (setAsync i (StartAwaitChain (plug [] (Then Fulfilled StartedFn))) a5) =
      setAsync i (StartAwaitChain (Follow (GatePending (gates a5)))) a6"
    using started_block[OF f5(1,2), where fs = "[]"] by (simp add: a6_def)
  have r: "run (startEvents i H) a0 = setAsync i (StartAwaitChain (Follow (GatePending (gates a5)))) a6"
    unfolding startEvents_def run_append b1 b2 b3 b4 b5 b6 ..
  have g: "gates a5 = gates s0"
    by (simp add: a5_def a4_def a3_def a2_def a1_def f0(5))
  have tr: "trace a6 = startupRecord H"
    by (simp add: a6_def a5_def a4_def a3_def a2_def a1_def f0(4) startupRecord_def)
  have l: "i < length (promises a6)" using f5(2) by (simp add: a6_def)
  show ?thesis
    unfolding st fst_conv snd_conv H_def[symmetric] r
    using tr l by (simp add: getAsync_setAsync g) (simp add: setAsync_def a6_def)
qed

text \<open>
  Claim C8. Whatever happened before the first call of \<open>start\<close> and whatever happens
  between the two calls (nothing, for concurrent callers), a second call of \<open>start\<close>
  returns the promise the first call returned and leaves the whole state as it is: no
  second chain is built and no hook is run for it. Both callers hold one promise, hence
  see one outcome, and the only invocation of \<open>start\<close> that ever awaits a chain of phase
  hooks is the one behind that promise. An execution with a further call of \<open>start\<close>
  anywhere in it ends in the same state, with the same record of hook calls, as the
  execution without that call. And the hooks do run, once: when \<open>start\<close> is called for the
  first time, the jobs of the chain are run with every hook fulfilled, and \<open>start\<close> is
  called again at any moment of that (at once, in between, or after the last job), the
  state is \<open>STARTED\<close>, the promise both callers hold waits for the release, and the record
  shows every start-up hook of the registry called exactly once, phase by phase and in
  registration order.
\<close>

theorem start_single_flight:
  "start (run es (snd (start (run es0 makeApp)))) =
     (fst (start (run es0 makeApp)), run es (snd (start (run es0 makeApp)))) \<and>
   (\<forall>i c. getAsync (run es (snd (start (run es0 makeApp)))) i = Some (StartAwaitChain c) \<longrightarrow>
      i = fst (start (run es0 makeApp))) \<and>
   run (es @ CallStart # es') (snd (start (run es0 makeApp))) =
     run (es @ es') (snd (start (run es0 makeApp))) \<and>
   (startMemo (run es0 makeApp) = None \<and> exited (run es0 makeApp) = None \<longrightarrow>
      (\<forall>es1 es2. es1 @ es2 = startEvents (fst (start (run es0 makeApp))) (hooks (run es0 makeApp)) \<longrightarrow>
         appState (run (es1 @ CallStart # es2) (snd (start (run es0 makeApp)))) = STARTED \<and>
         trace (run (es1 @ CallStart # es2) (snd (start (run es0 makeApp)))) =
           startupRecord (hooks (run es0 makeApp)) \<and>
         getAsync (run (es1 @ CallStart # es2) (snd (start (run es0 makeApp))))
             (fst (start (run es0 makeApp))) =
           Some (StartAwaitChain (Follow (GatePending (gates (run es0 makeApp)))))))"
proof -
  define s0 where "s0 = run es0 makeApp"
  define s1 where "s1 = snd (start s0)"
  define p where "p = fst (start s0)"
  have c0: "consistent s0" by (simp add: s0_def consistent_reachable)
  have m1: "startMemo s1 = Some p" by (simp add: s1_def p_def start_sets_memo)
  have mm: "startMemo (run es s1) = Some p" for es
    using keeps_run[of s1 es] m1 by (simp add: keeps_def)
  have c: "consistent (run es s1)"
    unfolding s1_def by (intro consistent_run consistent_start c0)
  have 1: "start (run es s1) = (p, run es s1)" by (rule start_memo[OF mm])
  have 2: "\<forall>i c. getAsync (run es s1) i = Some (StartAwaitChain c) \<longrightarrow> i = p"
    using consistentD(5)[OF c] mm[of es] by auto
  have 3: "run (es @ CallStart # es') s1 = run (es @ es') s1" for es es'
    by (simp add: run_append step_CallStart_again[OF mm])
  have 5: "startMemo s0 = None \<and> exited s0 = None \<longrightarrow>
      (\<forall>es1 es2. es1 @ es2 = startEvents p (hooks s0) \<longrightarrow>
         appState (run (es1 @ CallStart # es2) s1) = STARTED \<and>
         trace (run (es1 @ CallStart # es2) s1) = startupRecord (hooks s0) \<and>
         getAsync (run (es1 @ CallStart # es2) s1) p =
           Some (StartAwaitChain (Follow (GatePending (gates s0)))))"
    using start_runs_hooks[OF c0] unfolding 3 by (simp add: s1_def p_def)
  from 1 2 3 5 show ?thesis
    unfolding s0_def[symmetric] s1_def[symmetric] p_def[symmetric] by blast
qed

theorem start_single_flight_witness:
  "startMemo (run registeredRun makeApp) = None \<and> exited (run registeredRun makeApp) = None \<and>
   fst (start (run registeredRun makeApp)) = 0 \<and>
   start (run [Resume 0] (snd (start (run registeredRun makeApp)))) =
     (0, run [Resume 0] (snd (start (run registeredRun makeApp)))) \<and>
   appState (run (CallStart # startEvents 0 (hooks (run registeredRun makeApp)))
               (snd (start (run registeredRun makeApp)))) = STARTED \<and>
   startupRecord (hooks (run registeredRun makeApp)) =
     [Called BOOTING 1, Settled BOOTING 1 None, Called BOOTING 2, Settled BOOTING 2 None,
      Called READY 3, Settled READY 3 None] \<and>
   trace (run (CallStart # startEvents 0 (hooks (run registeredRun makeApp)))
            (snd (start (run registeredRun makeApp)))) =
     [Called BOOTING 1, Settled BOOTING 1 None, Called BOOTING 2, Settled BOOTING 2 None,
      Called READY 3, Settled READY 3 None]"
proof -
  have h: "startMemo (run registeredRun makeApp) = None" "exited (run registeredRun makeApp) = None"
    "fst (start (run registeredRun makeApp)) = 0"
    "startupRecord (hooks (run registeredRun makeApp)) =
     [Called BOOTING 1, Settled BOOTING 1 None, Called BOOTING 2, Settled BOOTING 2 None,
      Called READY 3, Settled READY 3 None]"
    by code_simp+
  from start_single_flight[of "[Resume 0]" registeredRun "[]"] h
  have a: "start (run [Resume 0] (snd (start (run registeredRun makeApp)))) =
     (0, run [Resume 0] (snd (start (run registeredRun makeApp))))"
    and b: "\<forall>es1 es2. es1 @ es2 = startEvents 0 (hooks (run registeredRun makeApp)) \<longrightarrow>
         appState (run (es1 @ CallStart # es2) (snd (start (run registeredRun makeApp)))) = STARTED \<and>
         trace (run (es1 @ CallStart # es2) (snd (start (run registeredRun makeApp)))) =
           startupRecord (hooks (run registeredRun makeApp))"
    by simp_all
  from b[rule_format, of "[]" "startEvents 0 (hooks (run registeredRun makeApp))"] a h
  show ?thesis by simp
qed

section \<open>A failed start-up hook and the compensating stop\<close>

text \<open>
  Claim C6. The code breaks the last part of it when the compensating \<open>stop()\<close> fails: the
  catch block of \<open>start\<close> awaits \<open>stop()\<close> outside any \<open>try\<close> (the \<open>shutdown\<close> routine, the
  other caller, wraps the same \<open>await\<close> in \<open>try\<close>/\<open>catch\<close>), so a rejection of the promise of
  \<open>stop\<close> is the rejection of the promise of \<open>start\<close>. With a \<open>BOOTED\<close> hook that fails with
  error 7, a \<open>READY\<close> hook and a \<open>SHUTTING_DOWN\<close> hook that fails with error 8: the \<open>READY\<close>
  hook is never called, error 7 is logged, \<open>stop\<close> is called and \<open>start\<close> awaits its promise,
  that promise is rejected with error 8, and then the promise of \<open>start\<close> is rejected with
  error 8. When the teardown goes well the promise of \<open>start\<close> is resolved.
\<close>

theorem booted_failure_failed_teardown:
  "startMemo (run (bootedHookFailsRun @ failedTeardownRun) makeApp) = Some 0 \<and>
   stopMemo (run (bootedHookFailsRun @ failedTeardownRun) makeApp) = Some 1 \<and>
   hooks_get (hooks (run (bootedHookFailsRun @ failedTeardownRun) makeApp)) READY = [3] \<and>
   trace (run (bootedHookFailsRun @ failedTeardownRun) makeApp) =
     [Called BOOTED 1, Settled BOOTED 1 (Some 7),
      Called SHUTTING_DOWN 2, Settled SHUTTING_DOWN 2 (Some 8)] \<and>
   logs (run (bootedHookFailsRun @ failedTeardownRun) makeApp) =
     [Info ''Starting application'', ErrorObj (HookError 7), Info ''Stopping application''] \<and>
   getAsync (run (bootedHookFailsRun @ butlast failedTeardownRun) makeApp) 0 = Some (StartAwaitStop 1) \<and>
   getAsync (run (bootedHookFailsRun @ failedTeardownRun) makeApp) 1 = Some (Failed (HookError 8)) \<and>
   getAsync (run (bootedHookFailsRun @ failedTeardownRun) makeApp) 0 = Some (Failed (HookError 8)) \<and>
   getAsync (run (bootedHookFailsRun @ cleanTeardownRun) makeApp) 0 = Some Resolved"
  by code_simp

end
